theory Spec2Isabelle
  imports Complex_Main
begin

section \<open>Python values used by app.py\<close>

text \<open>
  The application is a Flask program (\<^verbatim>\<open>src/app.py\<close>). Its numeric code works on
  Python \<^verbatim>\<open>float\<close> (IEEE 754 binary64) and on Python's unbounded \<^verbatim>\<open>int\<close>.
  Exceptions are values: a computation that can raise returns \<open>pyerr + 'a\<close>.
\<close>

datatype pyerr = ValueError | OverflowError | ZeroDivisionError | TypeError | DatabaseError

definition bindE :: "pyerr + 'a \<Rightarrow> ('a \<Rightarrow> pyerr + 'b) \<Rightarrow> pyerr + 'b" where
  "bindE m f = (case m of Inl e \<Rightarrow> Inl e | Inr v \<Rightarrow> f v)"

subsection \<open>binary64 floats\<close>

text \<open>
  A float is a NaN, a signed infinity, or a finite value \<open>Fin s m e\<close> that stands for
  \<open>(-1)\<^sup>s * m * 2\<^sup>e\<close> (\<open>s = True\<close> is the minus sign, so \<open>Fin True 0 _\<close> is \<^verbatim>\<open>-0.0\<close>).
  The operations below only build finite values in the canonical form of binary64:
  \<open>2\<^sup>5\<^sup>2 \<le> m < 2\<^sup>5\<^sup>3\<close> with \<open>-1074 \<le> e \<le> 971\<close> (normal numbers), or \<open>m < 2\<^sup>5\<^sup>2\<close> with
  \<open>e = -1074\<close> (zero and subnormal numbers).
\<close>

datatype pyfloat = Fin bool nat int | Infty bool | NaN

definition is_double :: "pyfloat \<Rightarrow> bool" where
  "is_double x = (case x of
      Fin s m e \<Rightarrow> m < 2 ^ 53 \<and> - 1074 \<le> e \<and> e \<le> 971 \<and> (m < 2 ^ 52 \<longrightarrow> e = - 1074)
    | _ \<Rightarrow> True)"

definition is_finite :: "pyfloat \<Rightarrow> bool" where
  "is_finite x = (case x of Fin s m e \<Rightarrow> True | _ \<Rightarrow> False)"

text \<open>The rational number a finite float stands for (0 for the others).\<close>

definition fval :: "pyfloat \<Rightarrow> rat" where
  "fval x = (case x of
      Fin s m e \<Rightarrow> (if s then - 1 else 1) * of_nat m * 2 powi e
    | _ \<Rightarrow> 0)"

text \<open>Python's \<^verbatim>\<open>int.bit_length()\<close>.\<close>

fun bit_length :: "nat \<Rightarrow> nat" where
  "bit_length n = (if n = 0 then 0 else Suc (bit_length (n div 2)))"

declare bit_length.simps [simp del]

text \<open>\<open>n / d\<close> rounded to the nearest integer, a tie to the even one.\<close>

definition rhe_div :: "nat \<Rightarrow> nat \<Rightarrow> nat" where
  "rhe_div n d = (let f = n div d; r = n mod d in
      if 2 * r < d then f else if d < 2 * r then f + 1 else if even f then f else f + 1)"

text \<open>The fraction \<open>(p / q) * 2\<^sup>e\<close> as a numerator and a denominator.\<close>

definition scale :: "nat \<Rightarrow> nat \<Rightarrow> int \<Rightarrow> nat \<times> nat" where
  "scale p q e = (if 0 \<le> e then (p * 2 ^ nat e, q) else (p, q * 2 ^ nat (- e)))"

definition finish :: "bool \<Rightarrow> nat \<Rightarrow> int \<Rightarrow> pyfloat" where
  "finish s m e = (if 971 < e then Infty s else Fin s m e)"

text \<open>
  The integer \<open>k\<close> with \<open>2\<^sup>k \<le> p / q < 2\<^sup>k\<^sup>+\<^sup>1\<close>, for positive \<open>p\<close> and \<open>q\<close>: the difference
  of the bit lengths, or one less.
\<close>

definition floor_log2 :: "nat \<Rightarrow> nat \<Rightarrow> int" where
  "floor_log2 p q =
     (let b = int (bit_length p) - int (bit_length q)
      in (case scale p q (- b) of (p1, q1) \<Rightarrow> if q1 \<le> p1 then b else b - 1))"

text \<open>
  \<open>round_ratio s p q\<close> is the binary64 value nearest to \<open>(-1)\<^sup>s * p / q\<close> (for \<open>q > 0\<close>),
  ties to even, an overflow giving the infinity and an underflow a subnormal or zero:
  the rounding of every IEEE operation in round-to-nearest mode, and of CPython's
  correctly rounded string conversion.
\<close>

definition round_ratio :: "bool \<Rightarrow> nat \<Rightarrow> nat \<Rightarrow> pyfloat" where
  "round_ratio s p q =
     (if p = 0 then Fin s 0 (- 1074) else
      let e = max (floor_log2 p q - 52) (- 1074);
          m = (case scale p q (- e) of (n, d) \<Rightarrow> rhe_div n d)
      in if m = 2 ^ 53 then finish s (2 ^ 52) (e + 1) else finish s m e)"

text \<open>A float literal: the binary64 value nearest to the fraction \<open>n / d\<close>.\<close>

definition dbl :: "int \<Rightarrow> nat \<Rightarrow> pyfloat" where
  "dbl n d = round_ratio (n < 0) (nat \<bar>n\<bar>) d"

definition fneg :: "pyfloat \<Rightarrow> pyfloat" where
  "fneg x = (case x of Fin s m e \<Rightarrow> Fin (\<not> s) m e | Infty s \<Rightarrow> Infty (\<not> s) | NaN \<Rightarrow> NaN)"

text \<open>\<^verbatim>\<open>x > 0\<close> for a float \<open>x\<close>.\<close>

definition fgt0 :: "pyfloat \<Rightarrow> bool" where
  "fgt0 x = (case x of Fin s m e \<Rightarrow> \<not> s \<and> 0 < m | Infty s \<Rightarrow> \<not> s | NaN \<Rightarrow> False)"

text \<open>\<^verbatim>\<open>x * y\<close> on floats.\<close>

definition fmul :: "pyfloat \<Rightarrow> pyfloat \<Rightarrow> pyfloat" where
  "fmul x y = (case (x, y) of
      (NaN, _) \<Rightarrow> NaN
    | (_, NaN) \<Rightarrow> NaN
    | (Infty s, Infty t) \<Rightarrow> Infty (s \<noteq> t)
    | (Infty s, Fin t n f) \<Rightarrow> (if n = 0 then NaN else Infty (s \<noteq> t))
    | (Fin s m e, Infty t) \<Rightarrow> (if m = 0 then NaN else Infty (s \<noteq> t))
    | (Fin s m e, Fin t n f) \<Rightarrow>
        (case scale (m * n) 1 (e + f) of (p, q) \<Rightarrow> round_ratio (s \<noteq> t) p q))"

text \<open>\<^verbatim>\<open>x + y\<close> and \<^verbatim>\<open>x - y\<close> on floats.\<close>

definition fadd :: "pyfloat \<Rightarrow> pyfloat \<Rightarrow> pyfloat" where
  "fadd x y = (case (x, y) of
      (NaN, _) \<Rightarrow> NaN
    | (_, NaN) \<Rightarrow> NaN
    | (Infty s, Infty t) \<Rightarrow> (if s = t then Infty s else NaN)
    | (Infty s, Fin t n f) \<Rightarrow> Infty s
    | (Fin s m e, Infty t) \<Rightarrow> Infty t
    | (Fin s m e, Fin t n f) \<Rightarrow>
        (let g = min e f;
             a = (if s then - 1 else 1) * int m * 2 ^ nat (e - g);
             b = (if t then - 1 else 1) * int n * 2 ^ nat (f - g);
             z = a + b
         in if z = 0 then Fin (s \<and> t) 0 (- 1074)
            else (case scale (nat \<bar>z\<bar>) 1 g of (p, q) \<Rightarrow> round_ratio (z < 0) p q)))"

definition fsub :: "pyfloat \<Rightarrow> pyfloat \<Rightarrow> pyfloat" where
  "fsub x y = fadd x (fneg y)"

text \<open>
  \<^verbatim>\<open>x / y\<close> on floats: CPython raises ZeroDivisionError when the divisor is a zero and
  otherwise divides as IEEE does (an overflow is the infinity, not an exception).
\<close>

definition py_fdiv :: "pyfloat \<Rightarrow> pyfloat \<Rightarrow> pyerr + pyfloat" where
  "py_fdiv x y = (case y of
      Fin t n f \<Rightarrow>
        (if n = 0 then Inl ZeroDivisionError
         else Inr (case x of
                NaN \<Rightarrow> NaN
              | Infty s \<Rightarrow> Infty (s \<noteq> t)
              | Fin s m e \<Rightarrow>
                  (case scale m n (e - f) of (p, q) \<Rightarrow> round_ratio (s \<noteq> t) p q)))
    | NaN \<Rightarrow> Inr NaN
    | Infty t \<Rightarrow> Inr (case x of
                NaN \<Rightarrow> NaN
              | Infty s \<Rightarrow> NaN
              | Fin s m e \<Rightarrow> Fin (s \<noteq> t) 0 (- 1074)))"

text \<open>
  \<^verbatim>\<open>float(i)\<close> for an int, as done implicitly when an int meets a float in \<^verbatim>\<open>*\<close> or
  \<^verbatim>\<open>/\<close>: correctly rounded, OverflowError when the int is too large.
\<close>

definition py_float_of_int :: "int \<Rightarrow> pyerr + pyfloat" where
  "py_float_of_int i = (case round_ratio (i < 0) (nat \<bar>i\<bar>) 1 of
      Infty s \<Rightarrow> Inl OverflowError
    | x \<Rightarrow> Inr x)"

text \<open>\<^verbatim>\<open>a / b\<close> on two ints (true division): the correctly rounded quotient.\<close>

definition py_int_truediv :: "int \<Rightarrow> int \<Rightarrow> pyerr + pyfloat" where
  "py_int_truediv a b =
     (if b = 0 then Inl ZeroDivisionError
      else (case round_ratio ((a < 0) \<noteq> (b < 0)) (nat \<bar>a\<bar>) (nat \<bar>b\<bar>) of
              Infty s \<Rightarrow> Inl OverflowError
            | x \<Rightarrow> Inr x))"

text \<open>
  \<^verbatim>\<open>int(x)\<close> for a float: truncation toward zero; OverflowError on an infinity and
  ValueError on a NaN.
\<close>

definition py_int :: "pyfloat \<Rightarrow> pyerr + int" where
  "py_int x = (case x of
      Fin s m e \<Rightarrow>
        Inr ((if s then - 1 else 1) *
             (if 0 \<le> e then int m * 2 ^ nat e else int m div 2 ^ nat (- e)))
    | Infty s \<Rightarrow> Inl OverflowError
    | NaN \<Rightarrow> Inl ValueError)"

text \<open>\<^verbatim>\<open>math.ceil(x)\<close> for a float, with the same two exceptions.\<close>

definition py_ceil :: "pyfloat \<Rightarrow> pyerr + int" where
  "py_ceil x = (case x of
      Fin s m e \<Rightarrow>
        Inr (if 0 \<le> e then (if s then - 1 else 1) * int m * 2 ^ nat e
             else - (((if s then 1 else - 1) * int m) div 2 ^ nat (- e)))
    | Infty s \<Rightarrow> Inl OverflowError
    | NaN \<Rightarrow> Inl ValueError)"

text \<open>
  \<open>cents m e\<close>: the absolute value \<open>m * 2\<^sup>e\<close> of a finite float in hundredths, rounded to the
  nearest integer (ties to even) on the exact binary value. CPython's \<^verbatim>\<open>round(x, 2)\<close>
  and the format \<^verbatim>\<open>.2f\<close> both start from this correctly rounded decimal.
\<close>

definition cents :: "nat \<Rightarrow> int \<Rightarrow> nat" where
  "cents m e = (case scale (m * 100) 1 e of (p, q) \<Rightarrow> rhe_div p q)"

text \<open>
  \<^verbatim>\<open>round(x, 2)\<close> for a float: infinities and NaN round to themselves; a finite value
  is rounded to two decimals and converted back to the nearest float, keeping the sign
  (OverflowError if that conversion overflows).
\<close>

definition py_round2 :: "pyfloat \<Rightarrow> pyerr + pyfloat" where
  "py_round2 x = (case x of
      Fin s m e \<Rightarrow>
        (case round_ratio s (cents m e) 100 of
           Infty t \<Rightarrow> Inl OverflowError
         | y \<Rightarrow> Inr y)
    | _ \<Rightarrow> Inr x)"

text \<open>An int meeting a float: the int is converted first.\<close>

definition py_int_mul_float :: "int \<Rightarrow> pyfloat \<Rightarrow> pyerr + pyfloat" where
  "py_int_mul_float i x = bindE (py_float_of_int i) (\<lambda>a. Inr (fmul a x))"

definition py_float_mul_int :: "pyfloat \<Rightarrow> int \<Rightarrow> pyerr + pyfloat" where
  "py_float_mul_int x i = bindE (py_float_of_int i) (\<lambda>b. Inr (fmul x b))"

definition py_float_div_int :: "pyfloat \<Rightarrow> int \<Rightarrow> pyerr + pyfloat" where
  "py_float_div_int x i = bindE (py_float_of_int i) (\<lambda>b. py_fdiv x b)"

text \<open>The literals \<^verbatim>\<open>0.0\<close> and \<^verbatim>\<open>100.0\<close>.\<close>

definition fzero :: pyfloat where
  "fzero = Fin False 0 (- 1074)"

definition f100 :: pyfloat where
  "f100 = Fin False 7036874417766400 (- 46)"

section \<open>Strings\<close>

text \<open>
  A Python \<^verbatim>\<open>str\<close> is modelled as a \<open>string\<close> whose characters are the code points
  below 256. \<^verbatim>\<open>str.strip()\<close> removes the characters Python counts as whitespace:
  in that range the code points 9 to 13, 28 to 32, 133 and 160.
\<close>

definition py_isspace :: "char \<Rightarrow> bool" where
  "py_isspace c = (c \<in> set [CHR 0x09, CHR 0x0A, CHR 0x0B, CHR 0x0C, CHR 0x0D,
                             CHR 0x1C, CHR 0x1D, CHR 0x1E, CHR 0x1F, CHR 0x20,
                             CHR 0x85, CHR 0xA0])"

definition py_strip :: "string \<Rightarrow> string" where
  "py_strip s = rev (dropWhile py_isspace (rev (dropWhile py_isspace s)))"

text \<open>\<^verbatim>\<open>s.replace(c, new)\<close> for a pattern \<open>c\<close> of one character.\<close>

definition py_replace :: "char \<Rightarrow> string \<Rightarrow> string \<Rightarrow> string" where
  "py_replace c new s = concat (map (\<lambda>x. if x = c then new else [x]) s)"

subsection \<open>\<^verbatim>\<open>float(s)\<close> on a string\<close>

text \<open>
  CPython's \<^verbatim>\<open>float\<close> on a \<^verbatim>\<open>str\<close>: non-ASCII whitespace becomes a blank; underscores
  are dropped where each stands between two digits (any other underscore is an error);
  the C whitespace (9 to 13 and 32) around the text is skipped; and the whole rest must be
  a decimal numeral with an optional fraction and exponent, or \<^verbatim>\<open>inf\<close>, \<^verbatim>\<open>infinity\<close> or
  \<^verbatim>\<open>nan\<close> in any letter case, each with an optional sign. The value of a numeral is
  correctly rounded. Anything else raises ValueError, the only exception there is.
\<close>

definition is_digit :: "char \<Rightarrow> bool" where
  "is_digit c = (c \<in> set ''0123456789'')"

definition digit_val :: "char \<Rightarrow> nat" where
  "digit_val c = of_char c - 48"

definition digits_val :: "string \<Rightarrow> nat" where
  "digits_val ds = foldl (\<lambda>a c. 10 * a + digit_val c) 0 ds"

definition c_isspace :: "char \<Rightarrow> bool" where
  "c_isspace c = (c \<in> set [CHR 0x09, CHR 0x0A, CHR 0x0B, CHR 0x0C, CHR 0x0D, CHR 0x20])"

definition c_strip :: "string \<Rightarrow> string" where
  "c_strip s = rev (dropWhile c_isspace (rev (dropWhile c_isspace s)))"

definition space_to_ascii :: "char \<Rightarrow> char" where
  "space_to_ascii c = (if c = CHR 0x85 \<or> c = CHR 0xA0 then CHR 0x20 else c)"

text \<open>The first argument is the character before the rest (\<open>CHR 0x00\<close> at the start).\<close>

fun drop_underscores :: "char \<Rightarrow> string \<Rightarrow> string option" where
  "drop_underscores prev [] = (if prev = CHR ''_'' then None else Some [])"
| "drop_underscores prev (c # cs) =
     (if c = CHR ''_'' then (if is_digit prev then drop_underscores c cs else None)
      else if prev = CHR ''_'' \<and> \<not> is_digit c then None
      else map_option ((#) c) (drop_underscores c cs))"

definition parse_sign :: "string \<Rightarrow> bool \<times> string" where
  "parse_sign s = (case s of
      [] \<Rightarrow> (False, [])
    | c # cs \<Rightarrow> if c = CHR ''-'' then (True, cs)
                else if c = CHR ''+'' then (False, cs) else (False, s))"

text \<open>What follows the mantissa: nothing, or \<^verbatim>\<open>e\<close> with a signed, non-empty run of digits.\<close>

definition parse_exponent :: "string \<Rightarrow> int option" where
  "parse_exponent r = (case r of
      [] \<Rightarrow> Some 0
    | c # cs \<Rightarrow>
        if c = CHR ''e'' \<or> c = CHR ''E'' then
          (case parse_sign cs of (neg, ds) \<Rightarrow>
             if ds \<noteq> [] \<and> list_all is_digit ds
             then Some ((if neg then - 1 else 1) * int (digits_val ds)) else None)
        else None)"

definition parse_decimal :: "string \<Rightarrow> pyfloat option" where
  "parse_decimal s = (case parse_sign s of (neg, r0) \<Rightarrow>
      let ip = takeWhile is_digit r0;
          r1 = dropWhile is_digit r0;
          fr = (case r1 of
                  [] \<Rightarrow> ([], [])
                | c # cs \<Rightarrow> if c = CHR ''.'' then (takeWhile is_digit cs, dropWhile is_digit cs)
                            else ([], r1))
      in (case fr of (fp, r2) \<Rightarrow>
            if ip = [] \<and> fp = [] then None
            else (case parse_exponent r2 of
                    None \<Rightarrow> None
                  | Some ex \<Rightarrow>
                      (let d = digits_val (ip @ fp);
                           k = ex - int (length fp)
                       in Some (if 0 \<le> k then round_ratio neg (d * 10 ^ nat k) 1
                                else round_ratio neg d (10 ^ nat (- k)))))))"

definition lower :: "char \<Rightarrow> char" where
  "lower c = (if c \<in> set ''ABCDEFGHIJKLMNOPQRSTUVWXYZ'' then char_of (of_char c + (32::nat)) else c)"

definition parse_inf_or_nan :: "string \<Rightarrow> pyfloat option" where
  "parse_inf_or_nan s = (case parse_sign s of (neg, r) \<Rightarrow>
      let l = map lower r
      in if l = ''inf'' \<or> l = ''infinity'' then Some (Infty neg)
         else if l = ''nan'' then Some NaN else None)"

definition py_float_str :: "string \<Rightarrow> pyerr + pyfloat" where
  "py_float_str s =
     (case drop_underscores (CHR 0x00) (map space_to_ascii s) of
        None \<Rightarrow> Inl ValueError
      | Some u \<Rightarrow>
          (case parse_decimal (c_strip u) of
             Some x \<Rightarrow> Inr x
           | None \<Rightarrow> (case parse_inf_or_nan (c_strip u) of
                        Some x \<Rightarrow> Inr x
                      | None \<Rightarrow> Inl ValueError)))"

subsection \<open>The format \<^verbatim>\<open>,.2f\<close>\<close>

text \<open>
  The values \<^verbatim>\<open>br_money\<close> can be handed by a template: a float, an int, a string or
  \<^verbatim>\<open>None\<close>.
\<close>

datatype pyval = VFloat pyfloat | VInt int | VStr string | VNone

definition digit_char :: "nat \<Rightarrow> char" where
  "digit_char d = ''0123456789'' ! d"

fun digits_of :: "nat \<Rightarrow> string" where
  "digits_of n = (if n < 10 then [digit_char n] else digits_of (n div 10) @ [digit_char (n mod 10)])"

declare digits_of.simps [simp del]

text \<open>A comma before every group of three digits, counted from the right.\<close>

fun group3 :: "string \<Rightarrow> string" where
  "group3 ds = (if length ds \<le> 3 then ds
                else group3 (take (length ds - 3) ds) @ '','' @ drop (length ds - 3) ds)"

declare group3.simps [simp del]

text \<open>
  A float under \<^verbatim>\<open>,.2f\<close>: the correctly rounded value with two decimals, the integer
  part grouped; \<^verbatim>\<open>inf\<close> and \<^verbatim>\<open>nan\<close> for the values that are not finite.
\<close>

definition fmt_comma_2f :: "pyfloat \<Rightarrow> string" where
  "fmt_comma_2f x = (case x of
      NaN \<Rightarrow> ''nan''
    | Infty s \<Rightarrow> (if s then ''-inf'' else ''inf'')
    | Fin s m e \<Rightarrow>
        (let c = cents m e
         in (if s then ''-'' else []) @ group3 (digits_of (c div 100)) @ ''.'' @
            [digit_char (c mod 100 div 10), digit_char (c mod 10)]))"

text \<open>
  \<^verbatim>\<open>format(v, ",.2f")\<close>: an int is converted to a float first (OverflowError when too
  large), a string raises ValueError and \<^verbatim>\<open>None\<close> raises TypeError.
\<close>

definition py_format_comma_2f :: "pyval \<Rightarrow> pyerr + string" where
  "py_format_comma_2f v = (case v of
      VFloat x \<Rightarrow> Inr (fmt_comma_2f x)
    | VInt i \<Rightarrow> bindE (py_float_of_int i) (\<lambda>x. Inr (fmt_comma_2f x))
    | VStr t \<Rightarrow> Inl ValueError
    | VNone \<Rightarrow> Inl TypeError)"

section \<open>The helpers \<^verbatim>\<open>br_money\<close> and \<^verbatim>\<open>parse_num\<close>\<close>

text \<open>
  \<^verbatim>\<open>br_money\<close>: the f-string, then the three replacements; \<^verbatim>\<open>except Exception\<close>
  catches every exception of the formatting.
\<close>

definition br_money :: "pyval \<Rightarrow> string" where
  "br_money v = (case py_format_comma_2f v of
      Inr t \<Rightarrow> py_replace (CHR ''X'') ''.''
                (py_replace (CHR ''.'') '',''
                  (py_replace (CHR '','') ''X'' (''R$ '' @ t)))
    | Inl e \<Rightarrow> ''R$ 0,00'')"

text \<open>
  \<^verbatim>\<open>parse_num\<close>: \<^verbatim>\<open>raw\<close> is a form field, a string or \<^verbatim>\<open>None\<close>. Only ValueError is
  caught; another exception of \<^verbatim>\<open>float\<close> would pass through.
\<close>

definition parse_num :: "string option \<Rightarrow> pyerr + pyfloat" where
  "parse_num raw = (case raw of
      None \<Rightarrow> Inr fzero
    | Some r \<Rightarrow>
        (let s = py_strip r
         in if s = [] then Inr fzero
            else (case py_float_str (py_replace (CHR '','') ''.'' (py_replace (CHR ''.'') [] s)) of
                    Inl ValueError \<Rightarrow> Inr fzero
                  | Inl e \<Rightarrow> Inl e
                  | Inr x \<Rightarrow> Inr x)))"

section \<open>The funnel computation of \<^verbatim>\<open>dashboard\<close>\<close>

text \<open>The dictionary \<^verbatim>\<open>resultados\<close> handed to the template, one field per key.\<close>

record resultados =
  leads :: int
  agendamentos :: int
  comparecimentos :: int
  vendas :: int
  receita :: pyfloat
  roas :: pyfloat
  cac :: pyfloat
  custo_por_call :: pyfloat
  sdrs :: int
  closers :: int
  taxa_total_funil :: pyfloat
  retorno_por_lead :: pyfloat
  lucro :: pyfloat

text \<open>
  Lines 151 to 187 of \<^verbatim>\<open>dashboard\<close>, from the six parsed numbers to the dictionary, in
  the order the statements run. The three rates arrive as percentages and are divided
  by \<^verbatim>\<open>100.0\<close> first. Every operation that can raise in Python can return \<open>Inl\<close> here.
\<close>

definition dashboard_calc ::
  "pyfloat \<Rightarrow> pyfloat \<Rightarrow> pyfloat \<Rightarrow> pyfloat \<Rightarrow> pyfloat \<Rightarrow> pyfloat \<Rightarrow> pyerr + resultados" where
  "dashboard_calc investimento custo_lead pct_agendamento pct_comparecimento pct_conversao
      ticket_medio =
    bindE (py_fdiv pct_agendamento f100) (\<lambda>taxa_agendamento.
    bindE (py_fdiv pct_comparecimento f100) (\<lambda>taxa_comparecimento.
    bindE (py_fdiv pct_conversao f100) (\<lambda>taxa_conversao.
    bindE (if fgt0 custo_lead then bindE (py_fdiv investimento custo_lead) py_int
           else Inr 0) (\<lambda>n_leads.
    bindE (bindE (py_int_mul_float n_leads taxa_agendamento) py_int) (\<lambda>n_agendamentos.
    bindE (bindE (py_int_mul_float n_agendamentos taxa_comparecimento) py_int)
      (\<lambda>n_comparecimentos.
    bindE (bindE (py_int_mul_float n_comparecimentos taxa_conversao) py_int) (\<lambda>n_vendas.
    bindE (py_int_mul_float n_vendas ticket_medio) (\<lambda>v_receita.
    bindE (if 0 < n_vendas then py_float_div_int investimento n_vendas else Inr fzero)
      (\<lambda>v_cac.
    bindE (if fgt0 investimento then py_fdiv v_receita investimento else Inr fzero)
      (\<lambda>v_roas.
    bindE (if 0 < n_comparecimentos then py_float_div_int investimento n_comparecimentos
           else Inr fzero) (\<lambda>v_custo_por_call.
    bindE (bindE (py_int_truediv n_comparecimentos 180) py_ceil) (\<lambda>c_sdrs.
    bindE (bindE (py_int_truediv n_vendas 120) py_ceil) (\<lambda>c_closers.
    bindE (if 0 < n_leads
           then bindE (bindE (py_int_truediv n_vendas n_leads) (\<lambda>q. py_float_mul_int q 100))
                  py_round2
           else Inr fzero) (\<lambda>v_taxa_total_funil.
    bindE (if 0 < n_leads then bindE (py_float_div_int v_receita n_leads) py_round2
           else Inr fzero) (\<lambda>v_retorno_por_lead.
    bindE (py_round2 v_receita) (\<lambda>r_receita.
    bindE (py_round2 v_roas) (\<lambda>r_roas.
    bindE (py_round2 v_cac) (\<lambda>r_cac.
    bindE (py_round2 v_custo_por_call) (\<lambda>r_custo_por_call.
    bindE (py_round2 v_retorno_por_lead) (\<lambda>r_retorno_por_lead.
    bindE (py_round2 (fsub v_receita investimento)) (\<lambda>r_lucro.
      Inr \<lparr> leads = n_leads,
            agendamentos = n_agendamentos,
            comparecimentos = n_comparecimentos,
            vendas = n_vendas,
            receita = r_receita,
            roas = r_roas,
            cac = r_cac,
            custo_por_call = r_custo_por_call,
            sdrs = max 1 c_sdrs,
            closers = max 1 c_closers,
            taxa_total_funil = v_taxa_total_funil,
            retorno_por_lead = r_retorno_por_lead,
            lucro = r_lucro \<rparr>)))))))))))))))))))))"

section \<open>The lead store and the two views\<close>

text \<open>A row of the table \<^verbatim>\<open>leads\<close> (class \<^verbatim>\<open>Lead\<close>); \<open>lead_id\<close> is the column \<^verbatim>\<open>id\<close>.\<close>

record Lead =
  lead_id :: int
  name :: string
  phone :: string
  email :: string
  company :: string
  created_at :: int

text \<open>
  The database is the list of committed rows, oldest first. What the program cannot
  decide is in \<open>env\<close>: whether the commit raises, and the clock read by the column
  default \<^verbatim>\<open>datetime.utcnow\<close>.
\<close>

record env =
  commit_raises :: bool
  utcnow :: int

text \<open>
  Modelled from the spec: the primary key the database assigns is missing from the
  source (it is the behaviour of the database engine); the identifier is
  system-assigned, unique and monotonically increasing: one more than every identifier
  in the table, starting at 1.
\<close>

definition next_id :: "Lead list \<Rightarrow> int" where
  "next_id rows = fold (\<lambda>l a. max a (lead_id l + 1)) rows 1"

text \<open>
  \<^verbatim>\<open>db.session.add(lead); db.session.commit()\<close>: the row is inserted with its new
  identifier and timestamp, or the commit raises and nothing is stored.
\<close>

definition db_add_commit ::
  "env \<Rightarrow> string \<Rightarrow> string \<Rightarrow> string \<Rightarrow> string \<Rightarrow> Lead list \<Rightarrow> pyerr + (Lead \<times> Lead list)" where
  "db_add_commit ev n p m c rows =
     (if commit_raises ev then Inl DatabaseError
      else (let lead = \<lparr> lead_id = next_id rows, name = n, phone = p, email = m,
                          company = c, created_at = utcnow ev \<rparr>
            in Inr (lead, rows @ [lead])))"

text \<open>
  \<^verbatim>\<open>Lead.query.get(k)\<close>: the row with that primary key, if any. On the default SQLite
  store a key outside the signed 64-bit range cannot be bound to the query, and the
  lookup raises OverflowError.
\<close>

definition db_get :: "Lead list \<Rightarrow> int \<Rightarrow> pyerr + Lead option" where
  "db_get rows k =
     (if k < - (2 ^ 63) \<or> 2 ^ 63 \<le> k then Inl OverflowError
      else Inr (find (\<lambda>l. lead_id l = k) rows))"

datatype http_method = GET | POST

text \<open>
  A request: its method, the query parameter \<^verbatim>\<open>lead_id\<close> as
  \<^verbatim>\<open>request.args.get("lead_id", type=int)\<close> returns it (\<open>None\<close> when absent or not an
  int), and the form fields.
\<close>

record request =
  http_method :: http_method
  args_lead_id :: "int option"
  form :: "string \<Rightarrow> string option"

text \<open>
  A response is a rendered template with the context that matters here (the lead and
  \<^verbatim>\<open>resultados\<close>), or a redirect to an endpoint with its query parameters.
\<close>

datatype response =
  Template string "Lead option" "resultados option"
| Redirect string "(string \<times> int) list"

text \<open>The flashed messages, each with its category.\<close>

definition msg_name :: string where
  "msg_name = ''Informe o seu nome.''"

definition msg_phone :: string where
  "msg_phone = ''Informe o seu telefone.''"

definition msg_email :: string where
  "msg_email = ''Informe o seu e-mail.''"

definition msg_success :: string where
  "msg_success = ''Dados recebidos com sucesso. Vamos iniciar sua an'' @ [CHR 0xE1] @
     ''lise comercial!''"

definition msg_failure :: string where
  "msg_failure = ''N'' @ [CHR 0xE3] @ ''o foi poss'' @ [CHR 0xED] @
     ''vel salvar seus dados agora. Tente novamente em instantes.''"

text \<open>\<^verbatim>\<open>(request.form.get(k) or "").strip()\<close>\<close>

definition form_field :: "request \<Rightarrow> string \<Rightarrow> string" where
  "form_field req k = py_strip (case form req k of None \<Rightarrow> [] | Some v \<Rightarrow> v)"

text \<open>
  The view \<^verbatim>\<open>capture\<close>: the response, the messages flashed, and the database after
  the request.
\<close>

definition capture ::
  "env \<Rightarrow> request \<Rightarrow> Lead list \<Rightarrow> (response \<times> (string \<times> string) list) \<times> Lead list" where
  "capture ev req rows =
     (if http_method req = POST then
        (let v_name = form_field req ''name'';
             v_phone = form_field req ''phone'';
             v_email = form_field req ''email'';
             v_company = form_field req ''company'';
             errors = (if v_name = [] then [msg_name] else []) @
                      (if v_phone = [] then [msg_phone] else []) @
                      (if v_email = [] then [msg_email] else [])
         in if errors \<noteq> [] then
              ((Template ''lead_capture.html'' None None, map (\<lambda>e. (e, ''danger'')) errors),
               rows)
            else (case db_add_commit ev v_name v_phone v_email v_company rows of
                    Inr (lead, rows') \<Rightarrow>
                      ((Redirect ''dashboard'' [(''lead_id'', lead_id lead)],
                        [(msg_success, ''success'')]), rows')
                  | Inl e \<Rightarrow>
                      ((Template ''lead_capture.html'' None None,
                        [(msg_failure, ''danger'')]), rows)))
      else ((Template ''lead_capture.html'' None None, []), rows))"

text \<open>
  The view \<^verbatim>\<open>dashboard\<close>: the response, or the exception that escapes the view, and
  the database after the request.
\<close>

definition dashboard :: "request \<Rightarrow> Lead list \<Rightarrow> (pyerr + response) \<times> Lead list" where
  "dashboard req rows =
     (case (case args_lead_id req of
              None \<Rightarrow> Inr None
            | Some k \<Rightarrow> if k = 0 then Inr None else db_get rows k) of
        Inl e \<Rightarrow> (Inl e, rows)
      | Inr lead \<Rightarrow>
         if http_method req = POST then
           (case bindE (parse_num (form req ''investimento'')) (\<lambda>investimento.
                 bindE (parse_num (form req ''custo_lead'')) (\<lambda>custo_lead.
                 bindE (parse_num (form req ''taxa_agendamento'')) (\<lambda>pct_agendamento.
                 bindE (parse_num (form req ''taxa_comparecimento'')) (\<lambda>pct_comparecimento.
                 bindE (parse_num (form req ''taxa_conversao'')) (\<lambda>pct_conversao.
                 bindE (parse_num (form req ''ticket_medio'')) (\<lambda>ticket_medio.
                   dashboard_calc investimento custo_lead pct_agendamento
                     pct_comparecimento pct_conversao ticket_medio)))))) of
              Inl e \<Rightarrow> (Inl e, rows)
            | Inr r \<Rightarrow> (Inr (Template ''dashboard.html'' lead (Some r)), rows))
         else (Inr (Template ''dashboard.html'' lead None), rows))"

section \<open>Statements of the specification\<close>

text \<open>
  The messages a capture submission must be answered with, one for each required field
  that is blank after trimming, in the order name, phone, e-mail.
\<close>

definition blank_errors :: "request \<Rightarrow> string list" where
  "blank_errors req =
     (if form_field req ''name'' = [] then [msg_name] else []) @
     (if form_field req ''phone'' = [] then [msg_phone] else []) @
     (if form_field req ''email'' = [] then [msg_email] else [])"

text \<open>A submission whose name and e-mail are blank.\<close>

definition req_blank :: request where
  "req_blank = \<lparr> http_method = POST, args_lead_id = None,
       form = [''name'' \<mapsto> ''  '', ''phone'' \<mapsto> ''555'', ''company'' \<mapsto> ''ACME''] \<rparr>"

text \<open>The number of binary digits of a numeral, to evaluate \<open>bit_length\<close> on literals.\<close>

primrec num_bits :: "num \<Rightarrow> int" where
  "num_bits num.One = 1"
| "num_bits (num.Bit0 k) = num_bits k + 1"
| "num_bits (num.Bit1 k) = num_bits k + 1"

text \<open>Truncation toward zero: the floor of a value that is not negative, else the ceiling.\<close>

definition trunc0 :: "rat \<Rightarrow> int" where
  "trunc0 q = (if 0 \<le> q then \<lfloor>q\<rfloor> else \<lceil>q\<rceil>)"

text \<open>
  The float a funnel stage truncates: the count of the stage before, times the rate given
  as a percentage and divided by \<^verbatim>\<open>100.0\<close>.
\<close>

definition stage_value :: "int \<Rightarrow> pyfloat \<Rightarrow> pyerr + pyfloat" where
  "stage_value n pct = bindE (py_fdiv pct f100) (\<lambda>t. py_int_mul_float n t)"

text \<open>
  The derivation chain as the specification writes it, on exact numbers:
  \<^verbatim>\<open>leads = floor(investment / costPerLead)\<close> if \<^verbatim>\<open>costPerLead > 0\<close>, else \<^verbatim>\<open>0\<close>, and for
  each later stage the floor of the count before it times the rate, a percentage, over
  100.
\<close>

definition spec_leads :: "rat \<Rightarrow> rat \<Rightarrow> int" where
  "spec_leads investment costPerLead =
     (if 0 < costPerLead then \<lfloor>investment / costPerLead\<rfloor> else 0)"

definition spec_stage :: "int \<Rightarrow> rat \<Rightarrow> int" where
  "spec_stage n ratePct = \<lfloor>of_int n * (ratePct / 100)\<rfloor>"

text \<open>
  What \<^verbatim>\<open>parse_num\<close> hands to \<^verbatim>\<open>float\<close>, in the words of the specification: every
  \<^verbatim>\<open>.\<close> removed, every \<^verbatim>\<open>,\<close> turned into \<^verbatim>\<open>.\<close>.
\<close>

definition br_to_ascii :: "string \<Rightarrow> string" where
  "br_to_ascii t = map (\<lambda>c. if c = CHR '','' then CHR ''.'' else c) (filter (\<lambda>c. c \<noteq> CHR ''.'') t)"

text \<open>
  Dashboard submissions: a large investment with a small cost per lead, and the texts
  \<^verbatim>\<open>inf\<close> and \<^verbatim>\<open>nan\<close> as the investment. The other fields are absent.
\<close>

definition req_overflow :: request where
  "req_overflow = \<lparr> http_method = POST, args_lead_id = None,
       form = [''investimento'' \<mapsto> ''1e308'', ''custo_lead'' \<mapsto> ''0,1''] \<rparr>"

definition req_inf :: request where
  "req_inf = \<lparr> http_method = POST, args_lead_id = None,
       form = [''investimento'' \<mapsto> ''inf'', ''custo_lead'' \<mapsto> ''1''] \<rparr>"

definition req_nan :: request where
  "req_nan = \<lparr> http_method = POST, args_lead_id = None,
       form = [''investimento'' \<mapsto> ''nan'', ''custo_lead'' \<mapsto> ''1''] \<rparr>"

text \<open>
  The pt-BR rendering in the words of the specification: the currency marker, the sign,
  the integer digits in groups of three separated by \<^verbatim>\<open>.\<close>, then \<^verbatim>\<open>,\<close> and exactly two
  decimal digits. \<open>swap_sep\<close> exchanges the two separators.
\<close>

definition swap_sep :: "char \<Rightarrow> char" where
  "swap_sep c = (if c = CHR '','' then CHR ''.'' else if c = CHR ''.'' then CHR '','' else c)"

fun group3_dot :: "string \<Rightarrow> string" where
  "group3_dot ds = (if length ds \<le> 3 then ds
                    else group3_dot (take (length ds - 3) ds) @ ''.'' @ drop (length ds - 3) ds)"

declare group3_dot.simps [simp del]

definition spec_money :: "bool \<Rightarrow> nat \<Rightarrow> string" where
  "spec_money s c = ''R$ '' @ (if s then ''-'' else []) @ group3_dot (digits_of (c div 100)) @
     '','' @ [digit_char (c mod 100 div 10), digit_char (c mod 10)]"

text \<open>A capture submission with the three required fields.\<close>

definition req_ok :: request where
  "req_ok = \<lparr> http_method = POST, args_lead_id = None,
       form = [''name'' \<mapsto> '' Ana '', ''phone'' \<mapsto> ''555'', ''email'' \<mapsto> ''a@b.c''] \<rparr>"

section \<open>Properties of the model\<close>

subsection \<open>The fields of the example submissions\<close>

lemma form_field_req_blank:
  "form_field req_blank ''name'' = []"
  "form_field req_blank ''phone'' = ''555''"
  "form_field req_blank ''email'' = []"
  by (simp_all add: form_field_def req_blank_def py_strip_def py_isspace_def)

subsection \<open>Evaluating the float operations on literals\<close>

lemma bit_length_0 [simp]: "bit_length 0 = 0"
  by (subst bit_length.simps) simp

lemma bit_length_1 [simp]: "bit_length (Suc 0) = 1"
  by (subst bit_length.simps) simp

lemma bit_length_double: "0 < n \<Longrightarrow> bit_length (2 * n) = Suc (bit_length n)"
  by (subst bit_length.simps) simp

lemma bit_length_double1: "bit_length (2 * n + 1) = Suc (bit_length n)"
  by (subst bit_length.simps) simp

lemma bit_length_numeral [simp]: "int (bit_length (numeral k)) = num_bits k"
proof (induction k)
  case One
  then show ?case by simp
next
  case (Bit0 k)
  have e: "(numeral (num.Bit0 k) :: nat) = 2 * numeral k"
    by (metis mult_2 numeral_Bit0)
  have "bit_length (numeral (num.Bit0 k)) = bit_length (2 * numeral k)"
    by (simp only: e)
  also have "\<dots> = Suc (bit_length (numeral k))"
    by (rule bit_length_double) simp
  finally show ?case using Bit0 by simp
next
  case (Bit1 k)
  have e: "(numeral (num.Bit1 k) :: nat) = 2 * numeral k + 1"
    by (metis mult_2 numeral_Bit1)
  have "bit_length (numeral (num.Bit1 k)) = bit_length (2 * numeral k + 1)"
    by (simp only: e)
  also have "\<dots> = Suc (bit_length (numeral k))"
    by (rule bit_length_double1)
  finally show ?case using Bit1 by simp
qed

lemmas float_eval = round_ratio_def floor_log2_def scale_def rhe_div_def finish_def Let_def dbl_def
  fmul_def fadd_def fsub_def fneg_def py_fdiv_def py_float_of_int_def py_int_truediv_def
  py_int_def py_ceil_def cents_def py_round2_def py_int_mul_float_def py_float_mul_int_def
  py_float_div_int_def fzero_def f100_def fgt0_def bindE_def

subsection \<open>The floor of the binary logarithm\<close>

lemma bit_length_pos: "0 < n \<Longrightarrow> 0 < bit_length n"
  by (subst bit_length.simps) simp

lemma bit_length_bounds:
  "0 < n \<Longrightarrow> 2 ^ (bit_length n - 1) \<le> n \<and> n < 2 ^ bit_length n"
proof (induction n rule: bit_length.induct)
  case (1 n)
  show ?case
  proof (cases "n div 2 = 0")
    case True
    with 1(2) have "n = 1" by (simp add: div_eq_0_iff) 
    then show ?thesis by (simp add: bit_length.simps [of 1] bit_length.simps [of 0])
  next
    case False
    then have pos: "0 < n div 2" by simp
    from 1(1) [OF _ pos] 1(2)
    have ih: "2 ^ (bit_length (n div 2) - 1) \<le> n div 2" "n div 2 < 2 ^ bit_length (n div 2)"
      by auto
    have bl: "bit_length n = Suc (bit_length (n div 2))"
      using 1(2) by (subst bit_length.simps) simp
    from bit_length_pos [OF pos] obtain k where k: "bit_length (n div 2) = Suc k"
      by (cases "bit_length (n div 2)") auto
    have "2 * 2 ^ k \<le> n" using ih(1) k by simp
    moreover have "n < 2 * 2 ^ Suc k" using ih(2) k by simp
    ultimately show ?thesis by (simp add: bl k)
  qed
qed

lemma scale_value:
  assumes "0 < q" and "scale p q e = (n, d)"
  shows "0 < d" and "(of_nat n / of_nat d :: rat) = of_nat p / of_nat q * 2 powi e"
proof -
  show "0 < d" using assms by (auto simp add: scale_def split: if_splits)
  show "(of_nat n / of_nat d :: rat) = of_nat p / of_nat q * 2 powi e"
  proof (cases "0 \<le> e")
    case True
    then have "n = p * 2 ^ nat e" "d = q" using assms by (auto simp add: scale_def)
    then show ?thesis using True by (simp add: power_int_def)
  next
    case False
    then have "n = p" "d = q * 2 ^ nat (- e)" using assms by (auto simp add: scale_def)
    then show ?thesis using False by (simp add: power_int_def field_simps)
  qed
qed

lemma bit_length_powi:
  assumes "0 < n"
  shows "2 powi (int (bit_length n) - 1) \<le> (of_nat n :: rat)"
    and "(of_nat n :: rat) < 2 powi (int (bit_length n))"
proof -
  from bit_length_bounds [OF assms]
  have a: "2 ^ (bit_length n - 1) \<le> n" and b: "n < 2 ^ bit_length n" by auto
  have pos: "0 < bit_length n" by (rule bit_length_pos [OF assms])
  have "int (bit_length n) - 1 = int (bit_length n - 1)" using pos by simp
  then have "(2::rat) powi (int (bit_length n) - 1) = 2 ^ (bit_length n - 1)"
    by (simp only: power_int_of_nat)
  also have "\<dots> = of_nat (2 ^ (bit_length n - 1))" by simp
  also have "\<dots> \<le> of_nat n" using a by (simp only: of_nat_le_iff)
  finally show "2 powi (int (bit_length n) - 1) \<le> (of_nat n :: rat)" .
  have "(of_nat n :: rat) < of_nat (2 ^ bit_length n)" using b by (simp only: of_nat_less_iff)
  also have "\<dots> = 2 powi (int (bit_length n))" by simp
  finally show "(of_nat n :: rat) < 2 powi (int (bit_length n))" .
qed

lemma floor_log2_bounds:
  assumes "0 < p" and "0 < q"
  shows "2 powi (floor_log2 p q) \<le> (of_nat p / of_nat q :: rat)"
    and "(of_nat p / of_nat q :: rat) < 2 powi (floor_log2 p q + 1)"
proof -
  define b where "b = int (bit_length p) - int (bit_length q)"
  define x :: rat where "x = of_nat p / of_nat q"
  obtain p1 q1 where sc: "scale p q (- b) = (p1, q1)" by (cases "scale p q (- b)")
  from scale_value [OF assms(2) sc]
  have q1: "0 < q1" and v: "(of_nat p1 / of_nat q1 :: rat) = x * 2 powi (- b)"
    by (simp_all add: x_def)
  have lg: "floor_log2 p q = (if q1 \<le> p1 then b else b - 1)"
    by (simp add: floor_log2_def b_def [symmetric] sc Let_def)
  have cond: "(q1 \<le> p1) = (2 powi b \<le> x)"
  proof -
    have "(q1 \<le> p1) = ((1::rat) \<le> of_nat p1 / of_nat q1)"
      using q1 by (simp add: le_divide_eq)
    also have "\<dots> = (1 \<le> x * 2 powi (- b))" by (simp only: v)
    also have "\<dots> = (2 powi b \<le> x)"
      by (simp add: power_int_minus field_simps)
    finally show ?thesis .
  qed
  have qpos: "(0::rat) < of_nat q" using assms(2) by simp
  have up: "x < 2 powi (b + 1)"
  proof -
    have "x < 2 powi (int (bit_length p)) / of_nat q"
      unfolding x_def using bit_length_powi(2) [OF assms(1)] qpos
      by (simp add: divide_strict_right_mono)
    also have "\<dots> \<le> 2 powi (int (bit_length p)) / 2 powi (int (bit_length q) - 1)"
      using bit_length_powi(1) [OF assms(2)] qpos
      by (intro divide_left_mono) (simp_all add: zero_less_mult_iff)
    also have "\<dots> = 2 powi (b + 1)"
      by (simp add: b_def power_int_diff power_int_add)
    finally show ?thesis .
  qed
  have low: "2 powi (b - 1) \<le> x"
  proof -
    have "(2::rat) powi (b - 1) = 2 powi (int (bit_length p) - 1) / 2 powi (int (bit_length q))"
      by (simp add: b_def power_int_diff)
    also have "\<dots> \<le> of_nat p / 2 powi (int (bit_length q))"
      using bit_length_powi(1) [OF assms(1)]
      by (intro divide_right_mono) simp_all
    also have "\<dots> \<le> of_nat p / of_nat q"
      using bit_length_powi(2) [OF assms(2)] qpos
      by (intro divide_left_mono) simp_all
    finally show ?thesis by (simp add: x_def)
  qed
  show "2 powi (floor_log2 p q) \<le> (of_nat p / of_nat q :: rat)"
    using low cond by (simp add: lg x_def)
  show "(of_nat p / of_nat q :: rat) < 2 powi (floor_log2 p q + 1)"
    using up cond by (auto simp add: lg x_def)
qed

subsection \<open>\<^verbatim>\<open>int\<close> and \<^verbatim>\<open>math.ceil\<close> on the value of a float\<close>

lemma floor_nat_div_pow: "\<lfloor>(of_nat m :: rat) / 2 ^ k\<rfloor> = int m div 2 ^ k"
proof -
  have "(of_nat m :: rat) / 2 ^ k = of_int (int m) / of_int (2 ^ k)" by simp
  then show ?thesis by (simp only: floor_divide_of_int_eq)
qed

lemma ceiling_neg_nat_div_pow: "\<lceil>- ((of_nat m :: rat) / 2 ^ k)\<rceil> = - (int m div 2 ^ k)"
  by (simp add: ceiling_minus floor_nat_div_pow)

lemma ceiling_nat_div_pow: "\<lceil>(of_nat m :: rat) / 2 ^ k\<rceil> = - ((- int m) div 2 ^ k)"
proof -
  have "(of_nat m :: rat) / 2 ^ k = - (of_int (- int m) / of_int (2 ^ k))" by simp
  then have "\<lceil>(of_nat m :: rat) / 2 ^ k\<rceil> = - \<lfloor>(of_int (- int m) :: rat) / of_int (2 ^ k)\<rfloor>"
    by (simp only: ceiling_minus)
  then show ?thesis by (simp only: floor_divide_of_int_eq)
qed

lemma fval_Fin_nonneg_exp:
  "0 \<le> e \<Longrightarrow> fval (Fin s m e) = of_int ((if s then - 1 else 1) * int m * 2 ^ nat e)"
  by (simp add: fval_def power_int_def)

lemma fval_Fin_neg_exp:
  "e < 0 \<Longrightarrow> fval (Fin s m e) = (if s then - 1 else 1) * (of_nat m / 2 ^ nat (- e))"
  by (simp add: fval_def power_int_def field_simps)

lemma py_int_Fin: "py_int (Fin s m e) = Inr (trunc0 (fval (Fin s m e)))"
proof (cases "0 \<le> e")
  case True
  have "trunc0 (of_int k) = k" for k by (simp add: trunc0_def)
  then show ?thesis using True
    by (simp only: fval_Fin_nonneg_exp [OF True]) (simp add: py_int_def)
next
  case False
  then have neg: "e < 0" by simp
  have nn: "(0::rat) \<le> of_nat m / 2 ^ nat (- e)" by simp
  show ?thesis
  proof (cases s)
    case True
    show ?thesis
    proof (cases "(of_nat m :: rat) / 2 ^ nat (- e) = 0")
      case z: True
      then have "m = 0" by simp
      then show ?thesis using neg True by (simp add: py_int_def fval_def trunc0_def)
    next
      case nz: False
      then have "\<not> 0 \<le> - ((of_nat m :: rat) / 2 ^ nat (- e))" using nn by linarith
      then show ?thesis using neg True
        by (simp add: py_int_def fval_Fin_neg_exp trunc0_def ceiling_neg_nat_div_pow
            del: of_nat_eq_0_iff)
    qed
  next
    case False
    then show ?thesis using neg nn
      by (simp add: py_int_def fval_Fin_neg_exp trunc0_def floor_nat_div_pow)
  qed
qed

lemma py_ceil_Fin: "py_ceil (Fin s m e) = Inr \<lceil>fval (Fin s m e)\<rceil>"
proof (cases "0 \<le> e")
  case True
  show ?thesis using True
    by (simp only: fval_Fin_nonneg_exp [OF True] ceiling_of_int) (simp add: py_ceil_def)
next
  case False
  then have neg: "e < 0" by simp
  show ?thesis
  proof (cases s)
    case True
    then show ?thesis using neg
      by (simp add: py_ceil_def fval_Fin_neg_exp ceiling_neg_nat_div_pow)
  next
    case False
    then show ?thesis using neg
      by (simp add: py_ceil_def fval_Fin_neg_exp ceiling_nat_div_pow)
  qed
qed

lemma py_int_Inr: "py_int x = Inr k \<Longrightarrow> is_finite x \<and> k = trunc0 (fval x)"
  by (cases x) (simp_all add: py_int_Fin is_finite_def, simp_all add: py_int_def)

lemma py_ceil_Inr: "py_ceil x = Inr k \<Longrightarrow> is_finite x \<and> k = \<lceil>fval x\<rceil>"
  by (cases x) (simp_all add: py_ceil_Fin is_finite_def, simp_all add: py_ceil_def)

lemma bindE_Inr_iff: "(bindE a f = Inr r) = (\<exists>v. a = Inr v \<and> f v = Inr r)"
  by (cases a) (simp_all add: bindE_def)

lemma bindE_InrE:
  assumes "bindE a f = Inr r"
  obtains v where "a = Inr v" and "f v = Inr r"
  using assms by (auto simp add: bindE_Inr_iff)

subsection \<open>The stages of the funnel\<close>

lemma dashboard_calc_counts:
  assumes "dashboard_calc iv cost sr ar cr tk = Inr m"
  shows "(if fgt0 cost then bindE (py_fdiv iv cost) py_int else Inr 0) = Inr (leads m)"
    and "bindE (stage_value (leads m) sr) py_int = Inr (agendamentos m)"
    and "bindE (stage_value (agendamentos m) ar) py_int = Inr (comparecimentos m)"
    and "bindE (stage_value (comparecimentos m) cr) py_int = Inr (vendas m)"
    and "\<exists>c. bindE (py_int_truediv (comparecimentos m) 180) py_ceil = Inr c \<and> sdrs m = max 1 c"
    and "\<exists>c. bindE (py_int_truediv (vendas m) 120) py_ceil = Inr c \<and> closers m = max 1 c"
  using assms unfolding dashboard_calc_def stage_value_def
  by (elim bindE_InrE; auto simp add: bindE_def)+

lemma dbl_values:
  "dbl 10000 1 = Fin False 5497558138880000 (- 39)"
  "dbl 50 1 = Fin False 7036874417766400 (- 47)"
  "dbl 20 1 = Fin False 5629499534213120 (- 48)"
  "dbl 80 1 = Fin False 5629499534213120 (- 46)"
  "dbl 25 1 = Fin False 7036874417766400 (- 48)"
  "dbl 500 1 = Fin False 8796093022208000 (- 44)"
  "dbl 4000 1 = Fin False 8796093022208000 (- 41)"
  "dbl (- 6000) 1 = Fin True 6597069766656000 (- 40)"
  "dbl 2 1 = Fin False 4503599627370496 (- 51)"
  "dbl 29 1 = Fin False 8162774324609024 (- 48)"
  "dbl 50665495807918264 1 = Fin False 6333186975989783 3"
  "dbl 1 1 = Fin False 4503599627370496 (- 52)"
  "dbl 100 1 = f100"
  by (simp_all add: float_eval)

lemma calc_example:
  "dashboard_calc (Fin False 5497558138880000 (- 39)) (Fin False 7036874417766400 (- 47))
     (Fin False 5629499534213120 (- 48)) (Fin False 5629499534213120 (- 46))
     (Fin False 7036874417766400 (- 48)) (Fin False 8796093022208000 (- 44))
   = Inr \<lparr> leads = 200, agendamentos = 40, comparecimentos = 32, vendas = 8,
       receita = Fin False 8796093022208000 (- 41),
       roas = Fin False 7205759403792794 (- 54),
       cac = Fin False 5497558138880000 (- 42),
       custo_por_call = Fin False 5497558138880000 (- 44),
       sdrs = 1, closers = 1,
       taxa_total_funil = Fin False 4503599627370496 (- 50),
       retorno_por_lead = Fin False 5629499534213120 (- 48),
       lucro = Fin True 6597069766656000 (- 40) \<rparr>"
  by (simp add: dashboard_calc_def float_eval)

lemma calc_rounding:
  "dashboard_calc f100 (Fin False 4503599627370496 (- 52))
     (Fin False 8162774324609024 (- 48)) f100 f100 (Fin False 4503599627370496 (- 52))
   = Inr \<lparr> leads = 100, agendamentos = 28, comparecimentos = 28, vendas = 28,
       receita = Fin False 7881299347898368 (- 48),
       roas = Fin False 5044031582654956 (- 54),
       cac = Fin False 8038925334856335 (- 51),
       custo_por_call = Fin False 8038925334856335 (- 51),
       sdrs = 1, closers = 1,
       taxa_total_funil = Fin False 7881299347898368 (- 48),
       retorno_por_lead = Fin False 5044031582654956 (- 54),
       lucro = Fin True 5066549580791808 (- 46) \<rparr>"
  by (simp add: dashboard_calc_def float_eval)

lemma calc_staffing:
  "dashboard_calc (Fin False 6333186975989783 3) (Fin False 4503599627370496 (- 52))
     f100 f100 f100 (Fin False 4503599627370496 (- 51))
   = Inr \<lparr> leads = 50665495807918264, agendamentos = 50665495807918264,
       comparecimentos = 50665495807918264, vendas = 50665495807918264,
       receita = Fin False 6333186975989783 4,
       roas = Fin False 4503599627370496 (- 51),
       cac = Fin False 4503599627370496 (- 52),
       custo_por_call = Fin False 4503599627370496 (- 52),
       sdrs = 281474976710657, closers = 422212465065986,
       taxa_total_funil = Fin False 7036874417766400 (- 46),
       retorno_por_lead = Fin False 4503599627370496 (- 51),
       lucro = Fin False 6333186975989783 3 \<rparr>"
  by (simp add: dashboard_calc_def float_eval)

subsection \<open>Rounding: bounds and overflow\<close>

lemma rhe_div_bounds:
  assumes "0 < d"
  shows "2 * n \<le> 2 * d * rhe_div n d + d" and "2 * d * rhe_div n d \<le> 2 * n + d"
proof -
  have e: "n = d * (n div d) + n mod d" by simp
  have r: "n mod d < d" using assms by simp
  define f where "f = n div d"
  define r where "r = n mod d"
  have e': "n = d * f + r" and r': "r < d" using e r by (simp_all add: f_def r_def)
  have "2 * n \<le> 2 * d * rhe_div n d + d \<and> 2 * d * rhe_div n d \<le> 2 * n + d"
    unfolding rhe_div_def Let_def f_def [symmetric] r_def [symmetric]
    using e' r' by (auto simp add: algebra_simps)
  then show "2 * n \<le> 2 * d * rhe_div n d + d" and "2 * d * rhe_div n d \<le> 2 * n + d"
    by simp_all
qed

lemma rhe_div_ge:
  assumes "0 < d" and "k * d \<le> n"
  shows "k \<le> rhe_div n d"
proof -
  have "k \<le> n div d" using assms by (simp add: less_eq_div_iff_mult_less_eq)
  moreover have "n div d \<le> rhe_div n d" by (simp add: rhe_div_def Let_def)
  ultimately show ?thesis by simp
qed

lemma round_ratio_overflow:
  assumes "0 < q" and "q * 2 ^ k \<le> p" and "1024 \<le> k"
  shows "round_ratio s p q = Infty s"
proof -
  have p: "0 < p" using assms by (cases "p = 0") auto
  have "(2::rat) powi (int k) \<le> of_nat p / of_nat q"
  proof -
    have "(of_nat (q * 2 ^ k) :: rat) \<le> of_nat p" using assms(2) by (simp only: of_nat_le_iff)
    then have "(of_nat q :: rat) * 2 ^ k \<le> of_nat p" by simp
    then have "(2::rat) ^ k \<le> of_nat p / of_nat q"
      using assms(1) by (simp add: le_divide_eq mult.commute)
    then show ?thesis by (simp only: power_int_of_nat)
  qed
  also have "\<dots> < 2 powi (floor_log2 p q + 1)"
    by (rule floor_log2_bounds(2) [OF p assms(1)])
  finally have lt: "(2::rat) powi (int k) < 2 powi (floor_log2 p q + 1)" .
  have "int k < floor_log2 p q + 1"
  proof (rule ccontr)
    assume "\<not> int k < floor_log2 p q + 1"
    then have "floor_log2 p q + 1 \<le> int k" by simp
    then have "(2::rat) powi (floor_log2 p q + 1) \<le> 2 powi (int k)"
      by (intro power_int_increasing) simp_all
    with lt show False by simp
  qed
  then have lg: "1023 < floor_log2 p q" using assms(3) by simp
  then have mx: "max (floor_log2 p q - 52) (- 1074) = floor_log2 p q - 52" by simp
  show ?thesis using p lg
    by (simp add: round_ratio_def Let_def finish_def mx split: prod.split)
qed

lemma py_fdiv_overflow:
  assumes "0 < n" and "n \<le> m * 2 ^ j" and "1024 + int j \<le> e - f"
  shows "py_fdiv (Fin s m e) (Fin t n f) = Inr (Infty (s \<noteq> t))"
proof -
  define k where "k = nat (e - f) - j"
  have k: "1024 \<le> k" and ef: "nat (e - f) = k + j" and pos: "0 \<le> e - f"
    using assms(3) by (simp_all add: k_def)
  have sc: "scale m n (e - f) = (m * 2 ^ (k + j), n)"
    using pos by (simp add: scale_def ef)
  have "n * 2 ^ k \<le> (m * 2 ^ j) * 2 ^ k" using assms(2) by simp
  then have "n * 2 ^ k \<le> m * 2 ^ (k + j)" by (simp add: power_add mult.assoc mult.commute)
  from round_ratio_overflow [OF assms(1) this k]
  show ?thesis using assms(1) by (simp add: py_fdiv_def sc)
qed

lemmas str_eval = parse_num_def py_strip_def py_isspace_def py_replace_def py_float_str_def
  space_to_ascii_def is_digit_def c_strip_def c_isspace_def parse_decimal_def parse_sign_def
  parse_exponent_def parse_inf_or_nan_def lower_def digits_val_def digit_val_def

subsection \<open>Evaluating the funnel and the parser on examples\<close>

lemma py_fdiv_zero:
  "n \<noteq> 0 \<Longrightarrow> py_fdiv (Fin s 0 e) (Fin t n f) = Inr (Fin (s \<noteq> t) 0 (- 1074))"
  by (simp add: py_fdiv_def scale_def round_ratio_def)

lemma py_fdiv_fzero_f100: "py_fdiv fzero f100 = Inr fzero"
  by (simp add: fzero_def f100_def py_fdiv_zero)

lemma parse_examples:
  "parse_num None = Inr fzero"
  "parse_num (Some []) = Inr fzero"
  "parse_num (Some ''abc'') = Inr fzero"
  "parse_num (Some ''inf'') = Inr (Infty False)"
  "parse_num (Some ''nan'') = Inr NaN"
  by (simp_all add: str_eval)

lemma parse_numbers:
  "parse_num (Some ''1.234,56'') = Inr (dbl 123456 100)"
  "parse_num (Some ''1e3'') = Inr (dbl 1000 1)"
  "parse_num (Some ''1.5'') = Inr (dbl 15 1)"
  "parse_num (Some ''1'') = Inr (Fin False 4503599627370496 (- 52))"
  "parse_num (Some ''0,1'') = Inr (Fin False 7205759403792794 (- 56))"
  by (simp_all add: str_eval float_eval)

lemma parse_1e308: "parse_num (Some ''1e308'') = Inr (Fin False 5010420900022432 971)"
  by (simp add: str_eval float_eval)

lemma calc_overflow:
  "dashboard_calc (Fin False 5010420900022432 971) (Fin False 7205759403792794 (- 56))
     fzero fzero fzero fzero = Inl OverflowError"
proof -
  have "py_fdiv (Fin False 5010420900022432 971) (Fin False 7205759403792794 (- 56))
        = Inr (Infty False)"
    using py_fdiv_overflow [of 7205759403792794 5010420900022432 3 971 "- 56" False False]
    by simp
  then show ?thesis
    by (simp add: dashboard_calc_def py_fdiv_fzero_f100 bindE_def fgt0_def py_int_def)
qed

lemma calc_inf:
  "dashboard_calc (Infty False) (Fin False 4503599627370496 (- 52)) fzero fzero fzero fzero = Inl OverflowError"
proof -
  have "py_fdiv (Infty False) (Fin False 4503599627370496 (- 52)) = Inr (Infty False)"
    by (simp add: py_fdiv_def)
  then show ?thesis
    by (simp add: dashboard_calc_def py_fdiv_fzero_f100 bindE_def fgt0_def py_int_def)
qed

lemma calc_nan:
  "dashboard_calc NaN (Fin False 4503599627370496 (- 52)) fzero fzero fzero fzero = Inl ValueError"
proof -
  have "py_fdiv NaN (Fin False 4503599627370496 (- 52)) = Inr NaN"
    by (simp add: py_fdiv_def)
  then show ?thesis
    by (simp add: dashboard_calc_def py_fdiv_fzero_f100 bindE_def fgt0_def py_int_def)
qed

subsection \<open>What \<^verbatim>\<open>parse_num\<close> does to its text\<close>

lemma py_replace_append: "py_replace c new (a @ b) = py_replace c new a @ py_replace c new b"
  by (simp add: py_replace_def)

lemma py_replace_Nil: "py_replace c new [] = []"
  by (simp add: py_replace_def)

lemma py_replace_Cons:
  "py_replace c new (x # xs) = (if x = c then new else [x]) @ py_replace c new xs"
  by (simp add: py_replace_def)

lemma parse_num_separators:
  "py_replace (CHR '','') ''.'' (py_replace (CHR ''.'') [] t) = br_to_ascii t"
  by (induction t) (simp_all add: py_replace_Nil py_replace_Cons br_to_ascii_def)

lemma dropWhile_all: "list_all P l \<Longrightarrow> dropWhile P (l @ s) = dropWhile P s"
  by (induction l) simp_all

lemma py_strip_pad:
  assumes "list_all py_isspace l" and "list_all py_isspace r"
  shows "py_strip (l @ s @ r) = py_strip s"
proof -
  have "list_all py_isspace (rev r)" using assms(2) by (simp add: list_all_iff)
  then have "dropWhile py_isspace (rev r @ rev s) = dropWhile py_isspace (rev s)"
    by (rule dropWhile_all)
  moreover have "dropWhile py_isspace (l @ s @ r) = dropWhile py_isspace (s @ r)"
    using assms(1) by (rule dropWhile_all)
  moreover have "rev (dropWhile py_isspace (rev (dropWhile py_isspace (s @ r))))
               = rev (dropWhile py_isspace (rev (dropWhile py_isspace s)))"
  proof (cases "list_all py_isspace s")
    case True
    then have "list_all py_isspace (s @ r)" using assms(2) by simp
    then have a: "dropWhile py_isspace (s @ r) = []"
      by (simp only: dropWhile_eq_Nil_conv list_all_iff)
    have b: "dropWhile py_isspace s = []"
      using True by (simp only: dropWhile_eq_Nil_conv list_all_iff)
    show ?thesis by (simp only: a b)
  next
    case False
    then obtain x where "x \<in> set s" "\<not> py_isspace x" by (auto simp add: list_all_iff)
    then have a: "dropWhile py_isspace (s @ r) = dropWhile py_isspace s @ r"
      by (rule dropWhile_append1)
    have b: "dropWhile py_isspace (rev r @ rev (dropWhile py_isspace s))
                 = dropWhile py_isspace (rev (dropWhile py_isspace s))"
      using \<open>list_all py_isspace (rev r)\<close> by (rule dropWhile_all)
    show ?thesis by (simp only: a rev_append b)
  qed
  ultimately show ?thesis by (simp only: py_strip_def)
qed

lemma py_float_str_error: "py_float_str t = Inl e \<Longrightarrow> e = ValueError"
  by (auto simp add: py_float_str_def split: option.splits)

lemma parse_num_Some:
  "parse_num (Some s) =
     Inr (if py_strip s = [] then fzero
          else (case py_float_str (br_to_ascii (py_strip s)) of Inr x \<Rightarrow> x | Inl e \<Rightarrow> fzero))"
proof (cases "py_float_str (br_to_ascii (py_strip s))")
  case (Inl e)
  then have "e = ValueError" by (rule py_float_str_error)
  then show ?thesis using Inl by (simp add: parse_num_def Let_def parse_num_separators)
next
  case (Inr x)
  then show ?thesis by (simp add: parse_num_def Let_def parse_num_separators)
qed

subsection \<open>Formatting money\<close>

lemma replace3_map:
  "CHR ''X'' \<notin> set t \<Longrightarrow>
   py_replace (CHR ''X'') ''.'' (py_replace (CHR ''.'') '','' (py_replace (CHR '','') ''X'' t))
     = map swap_sep t"
  by (induction t) (auto simp add: py_replace_Nil py_replace_Cons swap_sep_def)

lemma swap_sep_comma: "swap_sep (CHR '','') = CHR ''.''"
  by (simp add: swap_sep_def)

lemma swap_sep_dot: "swap_sep (CHR ''.'') = CHR '',''"
  by (simp add: swap_sep_def)

lemma swap_sep_other: "swap_sep (CHR ''R'') = CHR ''R''" "swap_sep (CHR ''$'') = CHR ''$''"
  "swap_sep (CHR '' '') = CHR '' ''" "swap_sep (CHR ''-'') = CHR ''-''"
  by (simp_all add: swap_sep_def)

lemma digit_char_is_digit: "d < 10 \<Longrightarrow> is_digit (digit_char d)"
proof -
  assume "d < 10"
  then have "d < length ''0123456789''" by simp
  then have "''0123456789'' ! d \<in> set ''0123456789''" by (rule nth_mem)
  then show ?thesis by (simp only: is_digit_def digit_char_def)
qed

lemma digits_of_digits: "list_all is_digit (digits_of n)"
proof (induction n rule: digits_of.induct)
  case (1 n)
  show ?case
  proof (cases "n < 10")
    case True
    then show ?thesis by (subst digits_of.simps) (simp add: digit_char_is_digit)
  next
    case False
    then show ?thesis using 1 by (subst digits_of.simps) (simp add: digit_char_is_digit)
  qed
qed

lemma swap_sep_digit: "is_digit c \<Longrightarrow> swap_sep c = c"
  by (auto simp add: is_digit_def swap_sep_def)

lemma digit_not_X: "is_digit c \<Longrightarrow> c \<noteq> CHR ''X''"
  by (auto simp add: is_digit_def)

lemma map_swap_digits: "list_all is_digit ds \<Longrightarrow> map swap_sep ds = ds"
  by (induction ds) (simp_all add: swap_sep_digit)

lemma group3_swap:
  "list_all is_digit ds \<Longrightarrow> map swap_sep (group3 ds) = group3_dot ds"
proof (induction ds rule: group3.induct)
  case (1 ds)
  show ?case
  proof (cases "length ds \<le> 3")
    case True
    then show ?thesis using 1(2)
      by (subst group3.simps, subst group3_dot.simps) (simp add: map_swap_digits)
  next
    case False
    have t: "list_all is_digit (take (length ds - 3) ds)"
      and d: "list_all is_digit (drop (length ds - 3) ds)"
      using 1(2) by (auto simp add: list_all_iff dest: in_set_takeD in_set_dropD)
    from 1(1) [OF False t] d False show ?thesis
      by (subst group3.simps, subst group3_dot.simps) (simp add: map_swap_digits swap_sep_comma)
  qed
qed

lemma group3_no_X: "list_all is_digit ds \<Longrightarrow> CHR ''X'' \<notin> set (group3 ds)"
proof (induction ds rule: group3.induct)
  case (1 ds)
  show ?case
  proof (cases "length ds \<le> 3")
    case True
    then show ?thesis using 1(2)
      by (subst group3.simps) (auto simp add: list_all_iff dest: digit_not_X)
  next
    case False
    have t: "list_all is_digit (take (length ds - 3) ds)"
      and d: "list_all is_digit (drop (length ds - 3) ds)"
      using 1(2) by (auto simp add: list_all_iff dest: in_set_takeD in_set_dropD)
    from 1(1) [OF False t] d False show ?thesis
      by (subst group3.simps) (auto simp add: list_all_iff dest: digit_not_X)
  qed
qed

lemma br_money_finite: "br_money (VFloat (Fin s m e)) = spec_money s (cents m e)"
proof -
  define c where "c = cents m e"
  define g where "g = group3 (digits_of (c div 100))"
  define d1 where "d1 = digit_char (c mod 100 div 10)"
  define d2 where "d2 = digit_char (c mod 10)"
  have dd: "list_all is_digit (digits_of (c div 100))" by (rule digits_of_digits)
  have d1: "is_digit d1" and d2: "is_digit d2"
    by (simp_all add: d1_def d2_def digit_char_is_digit)
  have noX: "CHR ''X'' \<notin> set (''R$ '' @ (if s then ''-'' else []) @ g @ ''.'' @ [d1, d2])"
    using group3_no_X [OF dd] d1 d2 by (auto simp add: g_def dest: digit_not_X)
  have f: "fmt_comma_2f (Fin s m e) = (if s then ''-'' else []) @ g @ ''.'' @ [d1, d2]"
    by (simp add: fmt_comma_2f_def Let_def c_def g_def d1_def d2_def)
  have "br_money (VFloat (Fin s m e))
        = map swap_sep (''R$ '' @ (if s then ''-'' else []) @ g @ ''.'' @ [d1, d2])"
    by (simp only: br_money_def py_format_comma_2f_def pyval.case sum.case f replace3_map [OF noX])
  also have "\<dots> = ''R$ '' @ (if s then ''-'' else []) @ group3_dot (digits_of (c div 100)) @
      '','' @ [d1, d2]"
    using group3_swap [OF dd] d1 d2
    by (simp add: g_def swap_sep_digit swap_sep_dot swap_sep_other)
  finally show ?thesis by (simp add: spec_money_def c_def d1_def d2_def)
qed

lemma br_money_example: "br_money (VFloat (dbl 12345 10)) = ''R$ 1.234,50''"
proof -
  have d: "dbl 12345 10 = Fin False 5429388417957888 (- 42)"
    by (simp add: float_eval)
  have c: "cents 5429388417957888 (- 42) = 123450"
    by (simp add: cents_def scale_def rhe_div_def Let_def)
  have g: "digits_of 1234 = ''1234''"
    by (simp add: digits_of.simps digit_char_def)
  have "spec_money False 123450 = ''R$ 1.234,50''"
    by (simp add: spec_money_def g group3_dot.simps digit_char_def)
  then show ?thesis by (simp only: d br_money_finite c)
qed

subsection \<open>Capturing a lead\<close>

lemma next_id_bound:
  "a \<le> fold (\<lambda>l a. max a (lead_id l + 1)) rows a
   \<and> (\<forall>l \<in> set rows. lead_id l < fold (\<lambda>l a. max a (lead_id l + 1)) rows a)"
proof (induction rows arbitrary: a)
  case Nil
  then show ?case by simp
next
  case (Cons r rows)
  from Cons [of "max a (lead_id r + 1)"] show ?case by auto
qed

lemma next_id_fresh: "next_id rows \<notin> lead_id ` set rows"
  using next_id_bound [of 1 rows] by (auto simp add: next_id_def)

lemma form_field_req_ok:
  "form_field req_ok ''name'' = ''Ana''" "form_field req_ok ''phone'' = ''555''"
  "form_field req_ok ''email'' = ''a@b.c''" "form_field req_ok ''company'' = []"
  by (simp_all add: form_field_def req_ok_def py_strip_def py_isspace_def)

subsection \<open>The error of the rounding\<close>

lemma finish_value:
  "finish s m e = Fin s' m' e' \<Longrightarrow> s' = s \<and> m' = m \<and> e' = e"
  by (simp add: finish_def split: if_splits)

lemma round_ratio_Fin:
  assumes "0 < p" and "0 < q" and "round_ratio s p q = Fin s' m' e'"
  obtains n d where "scale p q (- max (floor_log2 p q - 52) (- 1074)) = (n, d)"
    and "s' = s"
    and "(of_nat m' :: rat) * 2 powi e'
           = of_nat (rhe_div n d) * 2 powi (max (floor_log2 p q - 52) (- 1074))"
proof -
  define e where "e = max (floor_log2 p q - 52) (- 1074)"
  obtain n d where sc: "scale p q (- e) = (n, d)" by (cases "scale p q (- e)")
  have rr: "round_ratio s p q =
      (if rhe_div n d = 2 ^ 53 then finish s (2 ^ 52) (e + 1) else finish s (rhe_div n d) e)"
    using assms(1) by (simp add: round_ratio_def Let_def e_def [symmetric] sc)
  show ?thesis
  proof (cases "rhe_div n d = 2 ^ 53")
    case True
    with rr assms(3) have "finish s (2 ^ 52) (e + 1) = Fin s' m' e'" by simp
    from finish_value [OF this] have v: "s' = s" "m' = 2 ^ 52" "e' = e + 1" by simp_all
    have "(of_nat m' :: rat) * 2 powi e' = 2 ^ 52 * (2 powi e * 2)"
      by (simp add: v power_int_add)
    also have "\<dots> = of_nat (rhe_div n d) * 2 powi e" by (simp add: True)
    finally show ?thesis using that [OF sc [unfolded e_def] v(1)] by (simp add: e_def)
  next
    case False
    with rr assms(3) have "finish s (rhe_div n d) e = Fin s' m' e'" by simp
    from finish_value [OF this] have v: "s' = s" "m' = rhe_div n d" "e' = e" by simp_all
    show ?thesis using that [OF sc [unfolded e_def] v(1)] by (simp add: v e_def)
  qed
qed

lemma rhe_div_error:
  assumes "0 < d"
  shows "\<bar>(of_nat (rhe_div n d) :: rat) - of_nat n / of_nat d\<bar> \<le> 1 / 2"
proof -
  from rhe_div_bounds [OF assms, of n]
  have a: "2 * n \<le> 2 * d * rhe_div n d + d" and b: "2 * d * rhe_div n d \<le> 2 * n + d"
    by simp_all
  have a': "(2 * of_nat n :: rat) \<le> 2 * of_nat d * of_nat (rhe_div n d) + of_nat d"
    using a by (metis (no_types, lifting) of_nat_add of_nat_le_iff of_nat_mult of_nat_numeral)
  have b': "(2 * of_nat d * of_nat (rhe_div n d) :: rat) \<le> 2 * of_nat n + of_nat d"
    using b by (metis (no_types, lifting) of_nat_add of_nat_le_iff of_nat_mult of_nat_numeral)
  have dpos: "(0::rat) < of_nat d" using assms by simp
  have "(of_nat n :: rat) / of_nat d - 1 / 2 \<le> of_nat (rhe_div n d)"
    using a' dpos by (simp add: field_simps)
  moreover have "(of_nat (rhe_div n d) :: rat) \<le> of_nat n / of_nat d + 1 / 2"
    using b' dpos by (simp add: field_simps)
  ultimately show ?thesis by linarith
qed

lemma rhe_div_exact: "0 < d \<Longrightarrow> rhe_div (j * d) d = j"
  by (simp add: rhe_div_def)

lemma round_ratio_error:
  assumes "0 < p" and "0 < q" and "round_ratio s p q = Fin s' m' e'"
  shows "s' = s"
    and "\<bar>(of_nat m' :: rat) * 2 powi e' - of_nat p / of_nat q\<bar>
           \<le> 2 powi (max (floor_log2 p q - 52) (- 1074) - 1)"
proof -
  define e where "e = max (floor_log2 p q - 52) (- 1074)"
  from round_ratio_Fin [OF assms] obtain n d where
    sc: "scale p q (- e) = (n, d)" and s: "s' = s"
    and v: "(of_nat m' :: rat) * 2 powi e' = of_nat (rhe_div n d) * 2 powi e"
    unfolding e_def by blast
  show "s' = s" by (rule s)
  from scale_value [OF assms(2) sc]
  have d: "0 < d" and nd: "(of_nat n / of_nat d :: rat) = of_nat p / of_nat q * 2 powi (- e)"
    by simp_all
  have pw: "(0::rat) < 2 powi e" by (simp add: zero_less_power_int)
  have x: "(of_nat p / of_nat q :: rat) = of_nat n / of_nat d * 2 powi e"
    by (simp add: nd power_int_minus)
  have "\<bar>(of_nat m' :: rat) * 2 powi e' - of_nat p / of_nat q\<bar>
        = \<bar>(of_nat (rhe_div n d) - of_nat n / of_nat d) * 2 powi e\<bar>"
    by (simp add: v x algebra_simps)
  also have "\<dots> = \<bar>(of_nat (rhe_div n d) :: rat) - of_nat n / of_nat d\<bar> * 2 powi e"
    using pw by (simp add: abs_mult)
  also have "\<dots> \<le> 1 / 2 * 2 powi e"
    using rhe_div_error [OF d, of n] pw by (intro mult_right_mono) simp_all
  also have "\<dots> = 2 powi (e - 1)" by (simp add: power_int_diff)
  finally show "\<bar>(of_nat m' :: rat) * 2 powi e' - of_nat p / of_nat q\<bar>
           \<le> 2 powi (max (floor_log2 p q - 52) (- 1074) - 1)"
    by (simp add: e_def)
qed

lemma powi_less_imp_exp_less:
  assumes "(2::rat) powi a < 2 powi b"
  shows "a < b"
proof (rule ccontr)
  assume "\<not> a < b"
  then have "b \<le> a" by simp
  then have "(2::rat) powi b \<le> 2 powi a" by (intro power_int_increasing) simp_all
  with assms show False by simp
qed

lemma floor_log2_less:
  assumes "0 < p" and "0 < q" and "p < q * 2 ^ j"
  shows "floor_log2 p q < int j"
proof -
  have "(of_nat p :: rat) < of_nat (q * 2 ^ j)" using assms(3) by (simp only: of_nat_less_iff)
  then have "(of_nat p :: rat) / of_nat q < 2 ^ j"
    using assms(2) by (simp add: divide_less_eq mult.commute)
  then have "(of_nat p :: rat) / of_nat q < 2 powi (int j)" by (simp only: power_int_of_nat)
  with floor_log2_bounds(1) [OF assms(1,2)]
  have "(2::rat) powi (floor_log2 p q) < 2 powi (int j)" by (rule le_less_trans)
  then show ?thesis by (rule powi_less_imp_exp_less)
qed

lemma round_ratio_finite:
  assumes "0 < p" and "floor_log2 p q \<le> 1022"
  obtains m e where "round_ratio s p q = Fin s m e"
proof -
  define e where "e = max (floor_log2 p q - 52) (- 1074)"
  have e: "e \<le> 970" using assms(2) by (simp add: e_def)
  obtain n d where sc: "scale p q (- e) = (n, d)" by (cases "scale p q (- e)")
  have rr: "round_ratio s p q =
      (if rhe_div n d = 2 ^ 53 then finish s (2 ^ 52) (e + 1) else finish s (rhe_div n d) e)"
    using assms(1) by (simp add: round_ratio_def Let_def e_def [symmetric] sc)
  show ?thesis
  proof (cases "rhe_div n d = 2 ^ 53")
    case True
    then have "round_ratio s p q = Fin s (2 ^ 52) (e + 1)" using e by (simp add: rr finish_def)
    then show ?thesis by (rule that)
  next
    case False
    then have "round_ratio s p q = Fin s (rhe_div n d) e" using e by (simp add: rr finish_def)
    then show ?thesis by (rule that)
  qed
qed

lemma round_ratio_exact_multiple:
  assumes "0 < q" and "0 < k" and "k * q < q * 2 ^ j" and "j \<le> 53"
    and "round_ratio s (k * q) q = Fin s' m e"
  shows "(of_nat m :: rat) * 2 powi e = of_nat k"
proof -
  have p: "0 < k * q" using assms(1,2) by simp
  define ex where "ex = max (floor_log2 (k * q) q - 52) (- 1074)"
  from floor_log2_less [OF p assms(1,3)] assms(4) have "ex \<le> 0" by (simp add: ex_def)
  from round_ratio_Fin [OF p assms(1,5)] obtain n d where
    sc: "scale (k * q) q (- ex) = (n, d)"
    and v: "(of_nat m :: rat) * 2 powi e = of_nat (rhe_div n d) * 2 powi ex"
    unfolding ex_def by blast
  from sc \<open>ex \<le> 0\<close> have n: "n = (k * 2 ^ nat (- ex)) * q" and d: "d = q"
    by (auto simp add: scale_def mult_ac)
  have "rhe_div n d = k * 2 ^ nat (- ex)"
    unfolding n d by (rule rhe_div_exact [OF assms(1)])
  then have "(of_nat m :: rat) * 2 powi e = of_nat k * 2 ^ nat (- ex) * 2 powi ex"
    by (simp add: v)
  also have "\<dots> = of_nat k * (2 powi (- ex) * 2 powi ex)"
    using \<open>ex \<le> 0\<close> by (simp add: power_int_def)
  also have "\<dots> = of_nat k" by (simp add: power_int_minus)
  finally show ?thesis .
qed

subsection \<open>True division of ints and the ceiling\<close>

lemma ceiling_near:
  fixes a b :: int and v eps :: rat
  assumes "0 < b" and "\<bar>v - of_int a / of_int b\<bar> \<le> eps" and "eps * of_int b < 1"
    and "b dvd a \<longrightarrow> v = of_int a / of_int b"
  shows "\<lceil>v\<rceil> = \<lceil>of_int a / of_int b :: rat\<rceil>"
proof (cases "b dvd a")
  case True
  then show ?thesis using assms(4) by simp
next
  case False
  define x :: rat where "x = of_int a / of_int b"
  define k where "k = \<lceil>x\<rceil>"
  have bpos: "(0::rat) < of_int b" using assms(1) by simp
  have xk: "x \<le> of_int k" and kx: "of_int k - 1 < x"
    unfolding k_def by linarith+
  have "a \<noteq> b * k" using False by auto
  moreover have "a \<le> b * k"
  proof -
    have "(of_int a :: rat) \<le> of_int b * of_int k"
      using xk bpos by (simp add: x_def divide_le_eq mult.commute)
    then have "(of_int a :: rat) \<le> of_int (b * k)" by simp
    then show ?thesis by (simp only: of_int_le_iff)
  qed
  ultimately have "a + 1 \<le> b * k" by simp
  then have "(of_int (a + 1) :: rat) \<le> of_int (b * k)" by (simp only: of_int_le_iff)
  then have "(of_int a :: rat) + 1 \<le> of_int b * of_int k" by simp
  then have up: "x + 1 / of_int b \<le> of_int k"
    using bpos by (simp add: x_def field_simps)
  have "b * (k - 1) < a"
  proof -
    have "(of_int b :: rat) * (of_int k - 1) < of_int a"
      using kx bpos by (simp add: x_def less_divide_eq mult.commute)
    then have "(of_int (b * (k - 1)) :: rat) < of_int a" by simp
    then show ?thesis by (simp only: of_int_less_iff)
  qed
  then have "b * (k - 1) + 1 \<le> a" by simp
  then have "(of_int (b * (k - 1) + 1) :: rat) \<le> of_int a" by (simp only: of_int_le_iff)
  then have "(of_int b :: rat) * (of_int k - 1) + 1 \<le> of_int a" by simp
  then have "((of_int b :: rat) * (of_int k - 1) + 1) / of_int b \<le> of_int a / of_int b"
    using bpos by (intro divide_right_mono) simp_all
  moreover have "((of_int b :: rat) * (of_int k - 1) + 1) / of_int b = of_int k - 1 + 1 / of_int b"
    using bpos by (simp add: add_divide_distrib)
  ultimately have low: "of_int k - 1 + 1 / of_int b \<le> x"
    by (simp add: x_def)
  have e: "eps < 1 / of_int b" using assms(3) bpos by (simp add: field_simps)
  have v1: "v \<le> x + eps" and v2: "x - eps \<le> v"
    using assms(2) by (simp_all add: x_def abs_le_iff)
  have "of_int k - 1 < v" using v2 low e by linarith
  moreover have "v \<le> of_int k" using v1 up e by linarith
  ultimately have "\<lceil>v\<rceil> = k" by (intro ceiling_unique) simp_all
  then show ?thesis by (simp add: k_def x_def)
qed

lemma py_int_truediv_value:
  assumes "0 < b" and "\<bar>a\<bar> < b * 2 ^ j" and "j \<le> 53"
  obtains v where "py_int_truediv a b = Inr v" and "is_finite v"
    and "\<bar>fval v - of_int a / of_int b\<bar> \<le> 2 powi (int j - 54)"
    and "b dvd a \<longrightarrow> fval v = of_int a / of_int b"
proof (cases "a = 0")
  case True
  have "py_int_truediv a b = Inr (Fin False 0 (- 1074))"
    using assms(1) True by (simp add: py_int_truediv_def round_ratio_def)
  moreover have "fval (Fin False 0 (- 1074)) = of_int a / of_int b"
    using True by (simp add: fval_def)
  moreover have "(0::rat) \<le> 2 powi (int j - 54)" by (simp add: zero_le_power_int)
  ultimately show ?thesis using that [of "Fin False 0 (- 1074)"]
    by (simp add: is_finite_def)
next
  case False
  define p where "p = nat \<bar>a\<bar>"
  define q where "q = nat \<bar>b\<bar>"
  define s where "s = ((a < 0) \<noteq> (b < 0))"
  have p: "0 < p" using False by (simp add: p_def)
  have q: "0 < q" using assms(1) by (simp add: q_def)
  have s: "s = (a < 0)" using assms(1) by (simp add: s_def)
  have pq: "p < q * 2 ^ j"
  proof -
    have "int p < int (q * 2 ^ j)" using assms(1,2) by (simp add: p_def q_def)
    then show ?thesis by (simp only: of_nat_less_iff)
  qed
  have lg: "floor_log2 p q < int j" by (rule floor_log2_less [OF p q pq])
  then have "floor_log2 p q \<le> 1022" using assms(3) by simp
  from round_ratio_finite [OF p this, of s] obtain m e where
    rr: "round_ratio s p q = Fin s m e" by blast
  have tv: "py_int_truediv a b = Inr (Fin s m e)"
    using assms(1) rr by (simp add: py_int_truediv_def p_def q_def s_def)
  have ab: "(of_int a / of_int b :: rat) = (if s then - 1 else 1) * (of_nat p / of_nat q)"
    using assms(1) by (simp add: s p_def q_def)
  have fv: "fval (Fin s m e) = (if s then - 1 else 1) * (of_nat m * 2 powi e)"
    by (simp add: fval_def)
  have "max (floor_log2 p q - 52) (- 1074) - 1 \<le> int j - 54" using lg by simp
  then have "(2::rat) powi (max (floor_log2 p q - 52) (- 1074) - 1) \<le> 2 powi (int j - 54)"
    by (intro power_int_increasing) simp_all
  with round_ratio_error(2) [OF p q rr]
  have "\<bar>(of_nat m :: rat) * 2 powi e - of_nat p / of_nat q\<bar> \<le> 2 powi (int j - 54)"
    by (rule order_trans)
  then have err: "\<bar>fval (Fin s m e) - of_int a / of_int b\<bar> \<le> 2 powi (int j - 54)"
    by (simp add: ab fv) (simp add: abs_minus_commute)
  have ex: "b dvd a \<longrightarrow> fval (Fin s m e) = of_int a / of_int b"
  proof
    assume "b dvd a"
    then obtain c where c: "a = b * c" by (auto simp add: dvd_def)
    define k where "k = nat \<bar>c\<bar>"
    have k: "0 < k" using False c by (simp add: k_def)
    have pk: "p = k * q" using assms(1) by (simp add: p_def q_def k_def c abs_mult nat_mult_distrib)
    from round_ratio_exact_multiple [OF q k pq [unfolded pk] assms(3) rr [unfolded pk]]
    have "(of_nat m :: rat) * 2 powi e = of_nat k" .
    then show "fval (Fin s m e) = of_int a / of_int b"
      using q by (simp add: ab fv pk)
  qed
  show ?thesis using that [OF tv _ err ex] by (simp add: is_finite_def)
qed

lemma py_int_truediv_ceiling:
  assumes "0 < b" and "\<bar>a\<bar> < b * 2 ^ j" and "j \<le> 53" and "b * 2 ^ j < 2 ^ 54"
    and "py_int_truediv a b = Inr v"
  shows "\<lceil>fval v\<rceil> = \<lceil>of_int a / of_int b :: rat\<rceil>"
proof -
  from py_int_truediv_value [OF assms(1,2,3)] assms(5)
  have err: "\<bar>fval v - of_int a / of_int b\<bar> \<le> 2 powi (int j - 54)"
    and ex: "b dvd a \<longrightarrow> fval v = of_int a / of_int b"
    by auto
  have "(2::rat) powi (int j - 54) * of_int b < 1"
  proof -
    have "(of_int (b * 2 ^ j) :: rat) < of_int (2 ^ 54)" using assms(4) by (simp only: of_int_less_iff)
    then have "(of_int b :: rat) * 2 ^ j < 2 ^ 54" by simp
    then have "(of_int b :: rat) * 2 powi (int j) < 2 powi 54" by (simp add: power_int_def)
    then have "(of_int b :: rat) * 2 powi (int j) / 2 powi 54 < 1" by (simp add: power_int_def)
    then show ?thesis by (simp add: power_int_diff mult.commute)
  qed
  from ceiling_near [OF assms(1) err this ex] show ?thesis .
qed

subsection \<open>No division by zero in the funnel\<close>

lemma round_ratio_nonzero:
  assumes "0 < q" and "q \<le> p" and "round_ratio s p q = Fin s' m e"
  shows "0 < m"
proof -
  have p: "0 < p" using assms(1,2) by simp
  define ex where "ex = max (floor_log2 p q - 52) (- 1074)"
  have x1: "(1::rat) \<le> of_nat p / of_nat q" using assms(1,2) by (simp add: le_divide_eq)
  have "(2::rat) powi 0 \<le> of_nat p / of_nat q" using x1 by simp
  also have "\<dots> < 2 powi (floor_log2 p q + 1)" by (rule floor_log2_bounds(2) [OF p assms(1)])
  finally have "0 < floor_log2 p q + 1" by (rule powi_less_imp_exp_less)
  then have le: "ex \<le> floor_log2 p q" by (simp add: ex_def)
  from round_ratio_Fin [OF p assms(1,3)] obtain n d where
    sc: "scale p q (- ex) = (n, d)"
    and v: "(of_nat m :: rat) * 2 powi e = of_nat (rhe_div n d) * 2 powi ex"
    unfolding ex_def by blast
  from scale_value [OF assms(1) sc]
  have d: "0 < d" and nd: "(of_nat n / of_nat d :: rat) = of_nat p / of_nat q * 2 powi (- ex)"
    by simp_all
  have "(1::rat) = 2 powi ex * 2 powi (- ex)" by (simp add: power_int_minus)
  also have "\<dots> \<le> 2 powi (floor_log2 p q) * 2 powi (- ex)"
    using le by (intro mult_right_mono power_int_increasing) (simp_all add: zero_le_power_int)
  also have "\<dots> \<le> of_nat p / of_nat q * 2 powi (- ex)"
    using floor_log2_bounds(1) [OF p assms(1)]
    by (intro mult_right_mono) (simp_all add: zero_le_power_int)
  finally have "(1::rat) \<le> of_nat n / of_nat d" by (simp only: nd)
  then have "(of_nat d :: rat) \<le> of_nat n" using d by (simp add: le_divide_eq)
  then have "1 * d \<le> n" by simp
  from rhe_div_ge [OF d this] have "0 < rhe_div n d" by simp
  then have "(0::rat) < of_nat (rhe_div n d) * 2 powi ex" by (simp add: zero_less_power_int)
  then have "(0::rat) < of_nat m * 2 powi e" by (simp only: v)
  then show ?thesis by (cases "m = 0") simp_all
qed

lemma py_float_of_int_nonzero:
  assumes "i \<noteq> 0" and "py_float_of_int i = Inr x"
  obtains s m e where "x = Fin s m e" and "0 < m"
proof -
  have q: "0 < (1::nat)" by simp
  have p: "(1::nat) \<le> nat \<bar>i\<bar>" using assms(1) by simp
  show ?thesis
  proof (cases "round_ratio (i < 0) (nat \<bar>i\<bar>) 1")
    case (Fin s m e)
    from round_ratio_nonzero [OF q p Fin] have "0 < m" .
    moreover have "x = Fin s m e" using assms(2) Fin by (simp add: py_float_of_int_def)
    ultimately show ?thesis by (rule that [rotated])
  next
    case (Infty s)
    then show ?thesis using assms(2) by (simp add: py_float_of_int_def)
  next
    case NaN
    then have "x = NaN" using assms(2) by (simp add: py_float_of_int_def)
    moreover have "round_ratio (i < 0) (nat \<bar>i\<bar>) 1 \<noteq> NaN"
      by (simp add: round_ratio_def Let_def finish_def split: prod.split)
    ultimately show ?thesis using NaN by simp
  qed
qed

lemma bindE_not_zde:
  assumes "a \<noteq> Inl ZeroDivisionError"
    and "\<And>v. a = Inr v \<Longrightarrow> f v \<noteq> Inl ZeroDivisionError"
  shows "bindE a f \<noteq> Inl ZeroDivisionError"
  using assms by (cases a) (simp_all add: bindE_def)

lemma no_zde_py_int: "py_int x \<noteq> Inl ZeroDivisionError"
  by (cases x) (simp_all add: py_int_def)

lemma no_zde_py_ceil: "py_ceil x \<noteq> Inl ZeroDivisionError"
  by (cases x) (simp_all add: py_ceil_def)

lemma no_zde_py_round2: "py_round2 x \<noteq> Inl ZeroDivisionError"
  by (cases x) (simp_all add: py_round2_def split: pyfloat.split)

lemma no_zde_py_float_of_int: "py_float_of_int i \<noteq> Inl ZeroDivisionError"
  by (simp add: py_float_of_int_def split: pyfloat.split)

lemma no_zde_py_int_mul_float: "py_int_mul_float i x \<noteq> Inl ZeroDivisionError"
  unfolding py_int_mul_float_def by (intro bindE_not_zde no_zde_py_float_of_int) simp

lemma no_zde_py_float_mul_int: "py_float_mul_int x i \<noteq> Inl ZeroDivisionError"
  unfolding py_float_mul_int_def by (intro bindE_not_zde no_zde_py_float_of_int) simp

lemma no_zde_py_fdiv: "y = Fin t n f \<Longrightarrow> 0 < n \<Longrightarrow> py_fdiv x y \<noteq> Inl ZeroDivisionError"
  by (simp add: py_fdiv_def)

lemma no_zde_py_fdiv_f100: "py_fdiv x f100 \<noteq> Inl ZeroDivisionError"
  by (simp add: py_fdiv_def f100_def)

lemma no_zde_py_fdiv_pos: "fgt0 y \<Longrightarrow> py_fdiv x y \<noteq> Inl ZeroDivisionError"
  by (cases y) (simp_all add: py_fdiv_def fgt0_def)

lemma no_zde_py_float_div_int: "0 < i \<Longrightarrow> py_float_div_int x i \<noteq> Inl ZeroDivisionError"
  unfolding py_float_div_int_def
proof (intro bindE_not_zde no_zde_py_float_of_int)
  fix v
  assume "0 < i" and "py_float_of_int i = Inr v"
  then obtain s m e where "v = Fin s m e" and "0 < m"
    using py_float_of_int_nonzero [of i v] by auto
  then show "py_fdiv x v \<noteq> Inl ZeroDivisionError" by (rule no_zde_py_fdiv)
qed

lemma no_zde_py_int_truediv: "b \<noteq> 0 \<Longrightarrow> py_int_truediv a b \<noteq> Inl ZeroDivisionError"
  by (simp add: py_int_truediv_def split: pyfloat.split)

lemmas no_zde = no_zde_py_int no_zde_py_ceil no_zde_py_round2 no_zde_py_int_mul_float
  no_zde_py_float_mul_int no_zde_py_fdiv_f100 no_zde_py_fdiv_pos no_zde_py_float_div_int
  no_zde_py_int_truediv

lemma if_not_zde:
  assumes "c \<Longrightarrow> a \<noteq> Inl ZeroDivisionError" and "\<not> c \<Longrightarrow> b \<noteq> Inl ZeroDivisionError"
  shows "(if c then a else b) \<noteq> Inl ZeroDivisionError"
  using assms by simp

lemma Inr_not_zde: "Inr v \<noteq> Inl ZeroDivisionError"
  by simp

lemma dashboard_calc_no_zero_division:
  "dashboard_calc iv cost sr ar cr tk \<noteq> Inl ZeroDivisionError"
  unfolding dashboard_calc_def
  by (intro bindE_not_zde if_not_zde Inr_not_zde no_zde) simp_all

subsection \<open>The funnel of a zero investment at a zero cost\<close>

lemma round_ratio_zero: "round_ratio s 0 q = Fin s 0 (- 1074)"
  by (simp add: round_ratio_def)

lemma py_float_of_int_zero: "py_float_of_int 0 = Inr fzero"
  by (simp add: py_float_of_int_def round_ratio_zero fzero_def)

lemma fmul_zero_finite: "is_finite x \<Longrightarrow> \<exists>s. fmul fzero x = Fin s 0 (- 1074)"
  by (cases x) (simp_all add: is_finite_def fmul_def fzero_def scale_def round_ratio_zero)

lemma py_int_zero: "py_int (Fin s 0 e) = Inr 0"
  by (simp add: py_int_def)

lemma zero_stage:
  assumes "is_finite t"
  shows "bindE (py_int_mul_float 0 t) py_int = Inr 0"
proof -
  from fmul_zero_finite [OF assms] obtain s where "fmul fzero t = Fin s 0 (- 1074)" by blast
  then show ?thesis
    by (simp add: py_int_mul_float_def py_float_of_int_zero bindE_def py_int_zero)
qed

lemma fmul_zero_cases:
  "(\<exists>s. fmul fzero x = Fin s 0 (- 1074)) \<or> fmul fzero x = NaN"
  by (cases x) (simp_all add: fmul_def fzero_def scale_def round_ratio_zero)

lemma rhe_div_zero: "rhe_div 0 d = 0"
  by (simp add: rhe_div_def)

lemma py_round2_zero: "py_round2 (Fin s 0 e) = Inr (Fin s 0 (- 1074))"
  by (simp add: py_round2_def cents_def scale_def rhe_div_zero round_ratio_zero)

lemma py_round2_NaN: "py_round2 NaN = Inr NaN"
  by (simp add: py_round2_def)

lemma py_round2_fzero: "py_round2 fzero = Inr fzero"
  by (simp add: fzero_def py_round2_zero)

lemma fsub_zero_zero: "\<exists>u. fsub (Fin s 0 e) (Fin t 0 f) = Fin u 0 (- 1074)"
  by (simp add: fsub_def fadd_def fneg_def Let_def)

lemma fsub_NaN: "fsub NaN y = NaN"
  by (simp add: fsub_def fadd_def)

lemma ceil_zero_div: "b \<noteq> 0 \<Longrightarrow> bindE (py_int_truediv 0 b) py_ceil = Inr 0"
  by (simp add: py_int_truediv_def round_ratio_zero bindE_def py_ceil_def)

lemma bindE_Inr: "bindE (Inr v) f = f v"
  by (simp add: bindE_def)

lemma dashboard_calc_zero_zero:
  assumes "py_fdiv sr f100 = Inr ta" and "is_finite ta"
    and "py_fdiv ar f100 = Inr tc" and "is_finite tc"
    and "py_fdiv cr f100 = Inr tv" and "is_finite tv"
  shows "\<exists>m. dashboard_calc (Fin si 0 ei) (Fin sc 0 ec) sr ar cr tk = Inr m
           \<and> leads m = 0 \<and> agendamentos m = 0 \<and> comparecimentos m = 0 \<and> vendas m = 0
           \<and> roas m = fzero \<and> cac m = fzero \<and> custo_por_call m = fzero
           \<and> taxa_total_funil m = fzero \<and> retorno_por_lead m = fzero
           \<and> sdrs m = 1 \<and> closers m = 1"
proof -
  have g: "\<not> fgt0 (Fin sc 0 ec)" "\<not> fgt0 (Fin si 0 ei)" by (simp_all add: fgt0_def)
  have rec: "py_int_mul_float 0 tk = Inr (fmul fzero tk)"
    by (simp add: py_int_mul_float_def py_float_of_int_zero bindE_def)
  from fmul_zero_cases [of tk] show ?thesis
  proof
    assume "\<exists>s. fmul fzero tk = Fin s 0 (- 1074)"
    then obtain s where r: "fmul fzero tk = Fin s 0 (- 1074)" by blast
    from fsub_zero_zero [of s "- 1074" si ei] obtain u where
      l: "fsub (Fin s 0 (- 1074)) (Fin si 0 ei) = Fin u 0 (- 1074)" by blast
    show ?thesis
      by (simp add: dashboard_calc_def assms zero_stage g rec r l py_round2_zero
          py_round2_fzero ceil_zero_div bindE_Inr)
  next
    assume r: "fmul fzero tk = NaN"
    show ?thesis
      by (simp add: dashboard_calc_def assms zero_stage g rec r fsub_NaN py_round2_NaN
          py_round2_fzero ceil_zero_div bindE_Inr)
  qed
qed

subsection \<open>Rounding gives binary64 values\<close>

lemma round_ratio_is_double:
  assumes "0 < q"
  shows "is_double (round_ratio s p q)"
proof (cases "p = 0")
  case True
  then show ?thesis by (simp add: round_ratio_zero is_double_def)
next
  case False
  then have p: "0 < p" by simp
  define lg where "lg = floor_log2 p q"
  define ex where "ex = max (lg - 52) (- 1074)"
  obtain n d where sc: "scale p q (- ex) = (n, d)" by (cases "scale p q (- ex)")
  from scale_value [OF assms sc]
  have d: "0 < d" and nd: "(of_nat n / of_nat d :: rat) = of_nat p / of_nat q * 2 powi (- ex)"
    by simp_all
  have dpos: "(0::rat) < of_nat d" using d by simp
  define m where "m = rhe_div n d"
  have rr: "round_ratio s p q =
      (if m = 2 ^ 53 then finish s (2 ^ 52) (ex + 1) else finish s m ex)"
    using p by (simp add: round_ratio_def Let_def lg_def [symmetric] ex_def [symmetric] sc m_def)
  have ex_low: "- 1074 \<le> ex" by (simp add: ex_def)
  have upper: "m \<le> 2 ^ 53"
  proof -
    have "(of_nat n / of_nat d :: rat) < 2 powi (lg + 1) * 2 powi (- ex)"
      unfolding nd using floor_log2_bounds(2) [OF p assms]
      by (intro mult_strict_right_mono) (simp_all add: lg_def zero_less_power_int)
    also have "\<dots> = 2 powi (lg + 1 - ex)" by (simp add: power_int_add power_int_diff power_int_minus field_simps)
    also have "\<dots> \<le> 2 powi 53"
      by (intro power_int_increasing) (simp_all add: ex_def)
    finally have "(of_nat n :: rat) / of_nat d < 2 ^ 53" by (simp add: power_int_def)
    then have "(of_nat n :: rat) < of_nat (d * 2 ^ 53)"
      using dpos by (simp add: divide_less_eq mult.commute)
    then have nlt: "n < d * 2 ^ 53" by (simp only: of_nat_less_iff)
    from rhe_div_bounds(2) [OF d, of n] have "2 * d * m \<le> 2 * n + d" by (simp add: m_def)
    also have "\<dots> < 2 * (d * 2 ^ 53) + d" using nlt by simp
    finally have "d * (2 * m) < d * (2 * 2 ^ 53 + 1)" by (simp add: algebra_simps)
    then have "2 * m < 2 * 2 ^ 53 + 1" using d by simp
    then show ?thesis by simp
  qed
  have lower: "2 ^ 52 \<le> m" if "ex \<noteq> - 1074"
  proof -
    from that have e: "ex = lg - 52" by (simp add: ex_def split: if_splits)
    have "(2::rat) powi 52 = 2 powi lg * 2 powi (- ex)"
      by (simp add: e power_int_add [symmetric] del: power_int_minus)
    also have "\<dots> \<le> of_nat p / of_nat q * 2 powi (- ex)"
      using floor_log2_bounds(1) [OF p assms]
      by (intro mult_right_mono) (simp_all add: lg_def zero_le_power_int)
    finally have "(2::rat) ^ 52 \<le> of_nat n / of_nat d" by (simp add: nd power_int_def)
    then have "(of_nat (2 ^ 52 * d) :: rat) \<le> of_nat n"
      using dpos by (simp add: le_divide_eq)
    then have "2 ^ 52 * d \<le> n" by (simp only: of_nat_le_iff)
    from rhe_div_ge [OF d this] show ?thesis by (simp add: m_def)
  qed
  show ?thesis
  proof (cases "m = 2 ^ 53")
    case True
    then show ?thesis using ex_low by (simp add: rr finish_def is_double_def)
  next
    case False
    with upper have lt: "m < 2 ^ 53" by simp
    have sub: "m < 2 ^ 52 \<longrightarrow> ex = - 1074"
    proof (rule ccontr)
      assume "\<not> (m < 2 ^ 52 \<longrightarrow> ex = - 1074)"
      then have "m < 2 ^ 52" and "ex \<noteq> - 1074" by simp_all
      with lower show False by simp
    qed
    show ?thesis using ex_low lt sub False
      by (simp add: rr finish_def is_double_def)
  qed
qed

lemma parse_decimal_is_double: "parse_decimal t = Some x \<Longrightarrow> is_double x"
  by (auto simp add: parse_decimal_def Let_def round_ratio_is_double
      split: prod.splits option.splits if_splits list.splits)

lemma parse_inf_or_nan_is_double: "parse_inf_or_nan t = Some x \<Longrightarrow> is_double x"
  by (auto simp add: parse_inf_or_nan_def Let_def is_double_def split: prod.splits if_splits)

lemma py_float_str_is_double: "py_float_str t = Inr x \<Longrightarrow> is_double x"
  by (auto simp add: py_float_str_def parse_decimal_is_double parse_inf_or_nan_is_double
      split: option.splits)

lemma parse_num_is_double: "parse_num raw = Inr x \<Longrightarrow> is_double x"
proof (cases raw)
  case None
  then show "parse_num raw = Inr x \<Longrightarrow> is_double x"
    by (auto simp add: parse_num_def fzero_def is_double_def)
next
  case (Some s)
  assume "parse_num raw = Inr x"
  then have "x = fzero \<or> py_float_str (br_to_ascii (py_strip s)) = Inr x"
    unfolding Some parse_num_Some by (auto split: if_splits sum.splits)
  then show "is_double x"
    by (auto simp add: fzero_def is_double_def dest: py_float_str_is_double)
qed

subsection \<open>Staffing beyond the precision of a float\<close>

text \<open>
  Beyond \<open>2\<^sup>5\<^sup>3\<close> the float quotient of the true division can round down to an integer
  that the exact quotient exceeds: here the ceiling the code takes is one less than the
  ceiling of the exact quotient.
\<close>

lemma staffing_precision_example:
  "bindE (py_int_truediv 50665495807918264 180) py_ceil = Inr 281474976710657
   \<and> \<lceil>(of_int 50665495807918264 :: rat) / 180\<rceil> = 281474976710658"
proof -
  have "py_int_truediv 50665495807918264 180 = Inr (Fin False 4503599627370512 (- 4))"
    by (simp add: float_eval)
  then have "bindE (py_int_truediv 50665495807918264 180) py_ceil = Inr 281474976710657"
    by (simp add: bindE_def py_ceil_def)
  moreover have "\<lceil>(of_int 50665495807918264 :: rat) / 180\<rceil> = 281474976710658"
    by (simp add: ceiling_eq_iff)
  ultimately show ?thesis by simp
qed

subsection \<open>Truncation of nearby values\<close>

lemma trunc0_mono:
  assumes "a \<le> b"
  shows "trunc0 a \<le> trunc0 b"
proof (cases "0 \<le> a")
  case True
  then have "0 \<le> b" using assms by simp
  then show ?thesis using True assms by (simp add: trunc0_def floor_mono)
next
  case False
  show ?thesis
  proof (cases "0 \<le> b")
    case True
    have "\<lceil>a\<rceil> \<le> 0" using False by simp
    moreover have "0 \<le> \<lfloor>b\<rfloor>" using True by simp
    ultimately have "\<lceil>a\<rceil> \<le> \<lfloor>b\<rfloor>" by (rule order_trans)
    then show ?thesis using True False by (simp add: trunc0_def)
  next
    case F: False
    then show ?thesis using False assms by (simp add: trunc0_def ceiling_mono)
  qed
qed

lemma trunc0_add_one: "trunc0 (a + 1) \<le> trunc0 a + 1"
proof (cases "0 \<le> a")
  case True
  then show ?thesis by (simp add: trunc0_def)
next
  case False
  show ?thesis
  proof (cases "0 \<le> a + 1")
    case True
    have "a + 1 < 1" using False by simp
    then have f: "\<lfloor>a + 1\<rfloor> < 1" by (simp only: floor_less_iff of_int_1)
    have "of_int (- 1) \<le> a" using True by simp
    then have "\<lceil>(of_int (- 1) :: rat)\<rceil> \<le> \<lceil>a\<rceil>" by (rule ceiling_mono)
    then have c: "- 1 \<le> \<lceil>a\<rceil>" by (simp only: ceiling_of_int)
    have t1: "trunc0 (a + 1) = \<lfloor>a + 1\<rfloor>" using True by (simp only: trunc0_def if_True)
    have t2: "trunc0 a = \<lceil>a\<rceil>" using False by (simp only: trunc0_def if_False)
    show ?thesis unfolding t1 t2 using f c by linarith
  next
    case F: False
    then show ?thesis using False by (simp add: trunc0_def)
  qed
qed

lemma trunc0_near:
  assumes "\<bar>a - b\<bar> \<le> 1"
  shows "\<bar>trunc0 a - trunc0 b\<bar> \<le> 1"
proof -
  have 1: "trunc0 a \<le> trunc0 b + 1"
  proof -
    have "a \<le> b + 1" using assms by linarith
    from trunc0_mono [OF this] trunc0_add_one [of b] show ?thesis by linarith
  qed
  have 2: "trunc0 b \<le> trunc0 a + 1"
  proof -
    have "b \<le> a + 1" using assms by linarith
    from trunc0_mono [OF this] trunc0_add_one [of a] show ?thesis by linarith
  qed
  from 1 2 show ?thesis by linarith
qed

subsection \<open>The error of one float operation\<close>

text \<open>
  Below \<open>2\<^sup>j\<close> in absolute value, for \<open>j\<close> up to 53, a correctly rounded result is
  finite and within \<open>2\<^sup>j\<^sup>-\<^sup>5\<^sup>4\<close> of the exact one; an int below \<open>2\<^sup>5\<^sup>3\<close> in absolute
  value converts to a float exactly.
\<close>

lemma round_ratio_near:
  assumes "0 < p" and "0 < q" and "p < q * 2 ^ j" and "j \<le> 53"
  obtains m e where "round_ratio s p q = Fin s m e"
    and "\<bar>(of_nat m :: rat) * 2 powi e - of_nat p / of_nat q\<bar> \<le> 2 powi (int j - 54)"
proof -
  have lg: "floor_log2 p q < int j" by (rule floor_log2_less [OF assms(1,2,3)])
  then have "floor_log2 p q \<le> 1022" using assms(4) by simp
  from round_ratio_finite [OF assms(1) this, of s] obtain m e where
    rr: "round_ratio s p q = Fin s m e" by blast
  have "max (floor_log2 p q - 52) (- 1074) - 1 \<le> int j - 54" using lg by simp
  then have "(2::rat) powi (max (floor_log2 p q - 52) (- 1074) - 1) \<le> 2 powi (int j - 54)"
    by (intro power_int_increasing) simp_all
  with round_ratio_error(2) [OF assms(1,2) rr]
  have "\<bar>(of_nat m :: rat) * 2 powi e - of_nat p / of_nat q\<bar> \<le> 2 powi (int j - 54)"
    by (rule order_trans)
  with rr show ?thesis by (rule that)
qed

lemma round_ratio_fval:
  assumes "0 < q" and "(of_nat p :: rat) / of_nat q < 2 ^ j" and "j \<le> 53"
  shows "is_finite (round_ratio s p q)
       \<and> \<bar>fval (round_ratio s p q) - (if s then - 1 else 1) * (of_nat p / of_nat q)\<bar>
            \<le> 2 powi (int j - 54)"
proof (cases "p = 0")
  case True
  then show ?thesis
    by (simp add: round_ratio_def is_finite_def fval_def zero_le_power_int)
next
  case False
  then have p: "0 < p" by simp
  have "(of_nat p :: rat) < 2 ^ j * of_nat q"
    using assms(1,2) by (simp add: divide_less_eq)
  then have "(of_nat p :: rat) < of_nat (q * 2 ^ j)" by (simp add: mult.commute)
  then have pq: "p < q * 2 ^ j" by (simp only: of_nat_less_iff)
  from round_ratio_near [OF p assms(1) pq assms(3), of s] obtain m e where
    rr: "round_ratio s p q = Fin s m e"
    and err: "\<bar>(of_nat m :: rat) * 2 powi e - of_nat p / of_nat q\<bar> \<le> 2 powi (int j - 54)"
    by blast
  have "\<bar>fval (Fin s m e) - (if s then - 1 else 1) * (of_nat p / of_nat q)\<bar>
        = \<bar>(of_nat m :: rat) * 2 powi e - of_nat p / of_nat q\<bar>"
    by (simp add: fval_def) (simp add: abs_minus_commute)
  with err show ?thesis by (simp add: rr is_finite_def)
qed

lemma fval_Fin: "fval (Fin s m e) = (if s then - 1 else 1) * (of_nat m * 2 powi e)"
  by (simp add: fval_def)

lemma py_fdiv_near:
  assumes "0 < n" and "\<bar>fval (Fin s m e) / fval (Fin t n f)\<bar> < 2 ^ j" and "j \<le> 53"
  obtains z where "py_fdiv (Fin s m e) (Fin t n f) = Inr z" and "is_finite z"
    and "\<bar>fval z - fval (Fin s m e) / fval (Fin t n f)\<bar> \<le> 2 powi (int j - 54)"
proof -
  obtain p q where sc: "scale m n (e - f) = (p, q)" by (cases "scale m n (e - f)")
  from scale_value [OF assms(1) sc]
  have q: "0 < q"
    and pq: "(of_nat p / of_nat q :: rat) = of_nat m / of_nat n * 2 powi (e - f)"
    by simp_all
  have quo: "fval (Fin s m e) / fval (Fin t n f)
             = (if s \<noteq> t then - 1 else 1) * (of_nat p / of_nat q)"
    using assms(1) by (simp add: fval_Fin pq power_int_diff)
  have nn: "(0::rat) \<le> of_nat p / of_nat q" by simp
  have "\<bar>of_nat p / of_nat q :: rat\<bar> < 2 ^ j"
    using assms(2) unfolding quo by (simp add: abs_mult split: if_splits)
  then have lt: "(of_nat p / of_nat q :: rat) < 2 ^ j" using nn by linarith
  from round_ratio_fval [OF q lt assms(3), of "s \<noteq> t"]
  have fin: "is_finite (round_ratio (s \<noteq> t) p q)"
    and err: "\<bar>fval (round_ratio (s \<noteq> t) p q) - fval (Fin s m e) / fval (Fin t n f)\<bar>
              \<le> 2 powi (int j - 54)"
    unfolding quo by simp_all
  have "py_fdiv (Fin s m e) (Fin t n f) = Inr (round_ratio (s \<noteq> t) p q)"
    using assms(1) by (simp add: py_fdiv_def sc)
  then show ?thesis using fin err by (rule that)
qed

lemma fmul_near:
  assumes "\<bar>fval (Fin s m e) * fval (Fin t n f)\<bar> < 2 ^ j" and "j \<le> 53"
  shows "is_finite (fmul (Fin s m e) (Fin t n f))"
    and "\<bar>fval (fmul (Fin s m e) (Fin t n f)) - fval (Fin s m e) * fval (Fin t n f)\<bar>
           \<le> 2 powi (int j - 54)"
proof -
  obtain p q where sc: "scale (m * n) 1 (e + f) = (p, q)" by (cases "scale (m * n) 1 (e + f)")
  from scale_value [OF _ sc]
  have q: "0 < q"
    and pq: "(of_nat p / of_nat q :: rat) = of_nat (m * n) / of_nat 1 * 2 powi (e + f)"
    by simp_all
  have prod: "fval (Fin s m e) * fval (Fin t n f)
             = (if s \<noteq> t then - 1 else 1) * (of_nat p / of_nat q)"
    by (simp add: fval_Fin pq power_int_add)
  have nn: "(0::rat) \<le> of_nat p / of_nat q" by simp
  have "\<bar>of_nat p / of_nat q :: rat\<bar> < 2 ^ j"
    using assms(1) unfolding prod by (simp add: abs_mult split: if_splits)
  then have lt: "(of_nat p / of_nat q :: rat) < 2 ^ j" using nn by linarith
  have fm: "fmul (Fin s m e) (Fin t n f) = round_ratio (s \<noteq> t) p q"
    using sc by (simp add: fmul_def)
  from round_ratio_fval [OF q lt assms(2), of "s \<noteq> t"]
  show "is_finite (fmul (Fin s m e) (Fin t n f))"
    and "\<bar>fval (fmul (Fin s m e) (Fin t n f)) - fval (Fin s m e) * fval (Fin t n f)\<bar>
           \<le> 2 powi (int j - 54)"
    unfolding prod fm by simp_all
qed

lemma py_float_of_int_exact:
  assumes "\<bar>i\<bar> < 2 ^ 53"
  obtains a where "py_float_of_int i = Inr a" and "is_finite a" and "fval a = of_int i"
proof (cases "i = 0")
  case True
  have "py_float_of_int i = Inr (Fin False 0 (- 1074))"
    using True by (simp add: py_float_of_int_def round_ratio_def)
  moreover have "is_finite (Fin False 0 (- 1074))" by (simp add: is_finite_def)
  moreover have "fval (Fin False 0 (- 1074)) = of_int i" using True by (simp add: fval_def)
  ultimately show ?thesis by (rule that)
next
  case False
  define k where "k = nat \<bar>i\<bar>"
  have k: "0 < k" using False by (simp add: k_def)
  have "int k < int (2 ^ 53)" using assms by (simp add: k_def)
  then have "k < 2 ^ 53" by (simp only: of_nat_less_iff)
  then have lt: "k * 1 < 1 * 2 ^ 53" by simp
  have k1: "0 < k * 1" using k by simp
  from round_ratio_near [OF k1 zero_less_one lt order_refl, of "i < 0"] obtain m e where
    rr: "round_ratio (i < 0) (k * 1) 1 = Fin (i < 0) m e" by blast
  from round_ratio_exact_multiple [OF zero_less_one k lt order_refl rr]
  have v: "(of_nat m :: rat) * 2 powi e = of_nat k" .
  have "py_float_of_int i = Inr (Fin (i < 0) m e)"
    using rr by (simp add: py_float_of_int_def k_def)
  moreover have "is_finite (Fin (i < 0) m e)" by (simp add: is_finite_def)
  moreover have "fval (Fin (i < 0) m e) = of_int i"
    by (simp add: fval_Fin v) (simp add: k_def)
  ultimately show ?thesis by (rule that)
qed

subsection \<open>The counts and the exact derivation chain\<close>

lemma fval_f100: "fval f100 = 100"
  by (simp add: f100_def fval_def power_int_minus)

lemma stage_near:
  assumes "stage_value n pct = Inr x" and "is_finite pct"
    and "0 \<le> fval pct" and "fval pct \<le> 100" and "\<bar>n\<bar> < 2 ^ 52"
  shows "\<bar>fval x - of_int n * (fval pct / 100)\<bar> \<le> 1"
proof -
  obtain s m e where pct: "pct = Fin s m e"
    using assms(2) by (cases pct) (simp_all add: is_finite_def)
  have q1: "\<bar>fval (Fin s m e) / fval (Fin False 7036874417766400 (- 46))\<bar> < 2 ^ 1"
    using assms(3,4) fval_f100 by (simp add: pct f100_def)
  from py_fdiv_near [OF _ q1] obtain t where
    t: "py_fdiv pct f100 = Inr t" and tf: "is_finite t"
    and te: "\<bar>fval t - fval pct / 100\<bar> \<le> 2 powi (int 1 - 54)"
    using fval_f100 by (auto simp add: pct f100_def)
  have p53: "(2::rat) powi (int 1 - 54) = 1 / 2 ^ 53" by (simp add: power_int_minus)
  have te': "\<bar>fval t - fval pct / 100\<bar> \<le> 1 / 2 ^ 53" using te unfolding p53 .
  have "\<bar>n\<bar> < 2 ^ 53" using assms(5) by simp
  from py_float_of_int_exact [OF this] obtain a where
    a: "py_float_of_int n = Inr a" and af: "is_finite a" and av: "fval a = of_int n"
    by blast
  have x: "x = fmul a t"
    using assms(1) t a by (simp add: stage_value_def bindE_def py_int_mul_float_def)
  obtain s1 m1 e1 where a1: "a = Fin s1 m1 e1"
    using af by (cases a) (simp_all add: is_finite_def)
  obtain s2 m2 e2 where t2: "t = Fin s2 m2 e2"
    using tf by (cases t) (simp_all add: is_finite_def)
  have nb: "\<bar>of_int n :: rat\<bar> \<le> 2 ^ 52"
  proof -
    have "\<bar>n\<bar> \<le> 2 ^ 52" using assms(5) by simp
    then have "(of_int \<bar>n\<bar> :: rat) \<le> of_int (2 ^ 52)" by (simp only: of_int_le_iff)
    then show ?thesis by simp
  qed
  have d: "\<bar>of_int n * fval t - of_int n * (fval pct / 100)\<bar> \<le> 1 / 2"
  proof -
    have "\<bar>of_int n * fval t - of_int n * (fval pct / 100)\<bar>
          = \<bar>of_int n :: rat\<bar> * \<bar>fval t - fval pct / 100\<bar>"
      by (simp add: abs_mult [symmetric] right_diff_distrib)
    also have "\<dots> \<le> 2 ^ 52 * (1 / 2 ^ 53)"
      using nb te' by (intro mult_mono) simp_all
    also have "\<dots> = 1 / 2" by simp
    finally show ?thesis .
  qed
  have vb: "0 \<le> fval pct / 100" "fval pct / 100 \<le> 1" using assms(3,4) by simp_all
  have pb: "\<bar>of_int n * (fval pct / 100)\<bar> \<le> 2 ^ 52"
  proof -
    have "\<bar>of_int n * (fval pct / 100)\<bar> = \<bar>of_int n :: rat\<bar> * \<bar>fval pct / 100\<bar>"
      by (simp only: abs_mult)
    also have "\<dots> \<le> 2 ^ 52 * 1"
      using nb vb by (intro mult_mono) simp_all
    finally show ?thesis by simp
  qed
  have "\<bar>of_int n * fval t\<bar> \<le> 2 ^ 52 + 1 / 2" using d pb by linarith
  then have "\<bar>fval (Fin s1 m1 e1) * fval (Fin s2 m2 e2)\<bar> < 2 ^ 53"
    using av by (simp add: a1 [symmetric] t2 [symmetric])
  from fmul_near(2) [OF this order_refl]
  have "\<bar>fval x - of_int n * fval t\<bar> \<le> 2 powi (int 53 - 54)"
    using av by (simp add: x a1 [symmetric] t2 [symmetric])
  moreover have "(2::rat) powi (int 53 - 54) = 1 / 2" by (simp add: power_int_minus)
  ultimately have "\<bar>fval x - of_int n * fval t\<bar> \<le> 1 / 2" by simp
  with d show ?thesis by linarith
qed

lemma leads_near:
  assumes "py_fdiv iv cost = Inr q" and "is_finite iv" and "is_finite cost"
    and "0 < fval cost" and "\<bar>fval iv / fval cost\<bar> < 2 ^ 53"
  shows "\<bar>fval q - fval iv / fval cost\<bar> \<le> 1"
proof -
  obtain s m e where iv: "iv = Fin s m e"
    using assms(2) by (cases iv) (simp_all add: is_finite_def)
  obtain t n f where cost: "cost = Fin t n f"
    using assms(3) by (cases cost) (simp_all add: is_finite_def)
  have n: "0 < n" using assms(4) by (cases "n = 0") (simp_all add: cost fval_def)
  from py_fdiv_near [OF n assms(5) [unfolded iv cost] order_refl] assms(1)
  have "\<bar>fval q - fval iv / fval cost\<bar> \<le> 2 powi (int 53 - 54)"
    by (auto simp add: iv cost)
  moreover have "(2::rat) powi (int 53 - 54) = 1 / 2" by (simp add: power_int_minus)
  ultimately show ?thesis by simp
qed

lemma fgt0_fval:
  assumes "is_finite x"
  shows "fgt0 x = (0 < fval x)"
proof -
  obtain s m e where x: "x = Fin s m e"
    using assms by (cases x) (simp_all add: is_finite_def)
  have pw: "(0::rat) < 2 powi e" by (simp add: zero_less_power_int)
  have "(0 < (of_nat m :: rat) * 2 powi e) = (0 < m)"
    using pw by (simp add: zero_less_mult_iff)
  moreover have "\<not> 0 < - ((of_nat m :: rat) * 2 powi e)"
  proof -
    have "(0::rat) \<le> of_nat m * 2 powi e"
      using pw by (intro mult_nonneg_nonneg) simp_all
    then show ?thesis by linarith
  qed
  ultimately show ?thesis by (cases s) (simp_all add: x fgt0_def fval_def)
qed

lemma count_near:
  assumes "c = trunc0 (fval x)" and "\<bar>fval x - v\<bar> \<le> 1" and "0 \<le> v"
  shows "\<bar>c - \<lfloor>v\<rfloor>\<bar> \<le> 1"
proof -
  have "trunc0 v = \<lfloor>v\<rfloor>" using assms(3) by (simp add: trunc0_def)
  with trunc0_near [OF assms(2)] assms(1) show ?thesis by simp
qed

lemma stage_count_near:
  assumes "stage_value n pct = Inr x" and "c = trunc0 (fval x)"
    and "is_finite pct" and "0 \<le> fval pct" and "fval pct \<le> 100"
    and "0 \<le> n" and "n < 2 ^ 52"
  shows "\<bar>c - spec_stage n (fval pct)\<bar> \<le> 1"
proof -
  have "\<bar>n\<bar> < 2 ^ 52" using assms(6,7) by simp
  from stage_near [OF assms(1,3,4,5) this]
  have e: "\<bar>fval x - of_int n * (fval pct / 100)\<bar> \<le> 1" .
  have "(0::rat) \<le> of_int n * (fval pct / 100)"
    using assms(4,6) by (intro mult_nonneg_nonneg) simp_all
  from count_near [OF assms(2) e this] show ?thesis by (simp add: spec_stage_def)
qed

lemma leads_count_near:
  assumes "if fgt0 cost then (\<exists>q. py_fdiv iv cost = Inr q \<and> is_finite q \<and> c = trunc0 (fval q))
           else c = 0"
    and "is_finite iv" and "is_finite cost" and "0 \<le> fval iv"
    and "fval iv / fval cost < 2 ^ 53"
  shows "\<bar>c - spec_leads (fval iv) (fval cost)\<bar> \<le> 1"
proof (cases "0 < fval cost")
  case True
  then have "fgt0 cost" using assms(3) by (simp add: fgt0_fval)
  with assms(1) obtain q where q: "py_fdiv iv cost = Inr q" and c: "c = trunc0 (fval q)"
    by auto
  have nn: "0 \<le> fval iv / fval cost" using True assms(4) by simp
  then have "\<bar>fval iv / fval cost\<bar> < 2 ^ 53" using assms(5) by simp
  from leads_near [OF q assms(2,3) True this]
  have e: "\<bar>fval q - fval iv / fval cost\<bar> \<le> 1" .
  from count_near [OF c e nn] show ?thesis using True by (simp add: spec_leads_def)
next
  case False
  then have "\<not> fgt0 cost" using assms(3) by (simp add: fgt0_fval)
  with assms(1) have "c = 0" by simp
  then show ?thesis using False by (simp add: spec_leads_def)
qed

text \<open>
  The rounding goes both ways: here the quotient is a little less than 3 and the float
  division rounds it to \<^verbatim>\<open>3.0\<close>, one lead more than the floor of the exact quotient.
\<close>

lemma leads_round_up_example:
  "bindE (py_fdiv (Fin False 6755399441055745 (- 51)) (Fin False 4503599627370497 (- 52))) py_int
     = Inr 3
   \<and> spec_leads (fval (Fin False 6755399441055745 (- 51)))
        (fval (Fin False 4503599627370497 (- 52))) = 2"
proof -
  have "py_fdiv (Fin False 6755399441055745 (- 51)) (Fin False 4503599627370497 (- 52))
        = Inr (Fin False 6755399441055744 (- 51))"
    by (simp add: float_eval)
  then have "bindE (py_fdiv (Fin False 6755399441055745 (- 51))
        (Fin False 4503599627370497 (- 52))) py_int = Inr 3"
    by (simp add: bindE_def py_int_def)
  moreover have "spec_leads (fval (Fin False 6755399441055745 (- 51)))
        (fval (Fin False 4503599627370497 (- 52))) = 2"
    by (simp add: spec_leads_def fval_def power_int_minus floor_eq_iff)
  ultimately show ?thesis by simp
qed

section \<open>The claims\<close>

subsection \<open>C1: the count stages\<close>

text \<open>
  C1, as stated, fails: with investment 100, cost per lead 1 and a scheduling rate of 29
  per cent (the other rates 100 per cent, ticket 1) there are 100 leads, and the
  derivation chain asks for floor(100 * (29/100)) = 29 appointments. The code returns 28:
  the float \<^verbatim>\<open>29.0 / 100.0\<close> is a little less than 0.29, the float product with 100 is
  \<^verbatim>\<open>28.999999999999996\<close>, and \<^verbatim>\<open>int\<close> truncates it.
\<close>

theorem funnel_rounding_counterexample:
  "map_sum id leads
     (dashboard_calc (dbl 100 1) (dbl 1 1) (dbl 29 1) (dbl 100 1) (dbl 100 1) (dbl 1 1))
     = Inr 100
   \<and> map_sum id agendamentos
     (dashboard_calc (dbl 100 1) (dbl 1 1) (dbl 29 1) (dbl 100 1) (dbl 100 1) (dbl 1 1))
     = Inr 28
   \<and> fval (dbl 100 1) = 100 \<and> fval (dbl 1 1) = 1 \<and> fval (dbl 29 1) = 29
   \<and> spec_leads 100 1 = 100
   \<and> spec_stage 100 29 = 29"
proof -
  have "fval f100 = 100" by (rule fval_f100)
  moreover have "fval (Fin False 4503599627370496 (- 52)) = 1"
    by (simp add: fval_def power_int_minus)
  moreover have "fval (Fin False 8162774324609024 (- 48)) = 29"
    by (simp add: fval_def power_int_minus)
  moreover have "spec_leads 100 1 = 100" by (simp add: spec_leads_def)
  moreover have "spec_stage 100 29 = 29" by (simp add: spec_stage_def)
  ultimately show ?thesis
    unfolding dbl_values by (simp add: calc_rounding)
qed

text \<open>
  C1, amended: whenever the funnel computation returns, each count is the truncation
  toward zero of a finite float, the binary64 result of the operations of its stage:
  \<^verbatim>\<open>investimento / custo_lead\<close> when the cost is positive (0 leads otherwise), and for each
  later stage the count before it times its rate over \<^verbatim>\<open>100.0\<close>. That float is the
  rounded value of the expression, so a count can differ from the derivation chain
  evaluated on exact numbers, by at most one: for the leads when investment and cost are
  finite, the investment is not negative and the quotient is below \<open>2\<^sup>5\<^sup>3\<close>; for each later
  stage when its rate is finite and between 0 and 100 and the count before it is from 0
  to below \<open>2\<^sup>5\<^sup>2\<close>.
\<close>

theorem funnel_counts_truncate:
  assumes "dashboard_calc iv cost sr ar cr tk = Inr m"
  shows "(if fgt0 cost
          then (\<exists>q. py_fdiv iv cost = Inr q \<and> is_finite q \<and> leads m = trunc0 (fval q))
          else leads m = 0)
       \<and> (\<exists>x. stage_value (leads m) sr = Inr x \<and> is_finite x
               \<and> agendamentos m = trunc0 (fval x))
       \<and> (\<exists>x. stage_value (agendamentos m) ar = Inr x \<and> is_finite x
               \<and> comparecimentos m = trunc0 (fval x))
       \<and> (\<exists>x. stage_value (comparecimentos m) cr = Inr x \<and> is_finite x
               \<and> vendas m = trunc0 (fval x))
       \<and> (is_finite iv \<and> is_finite cost \<and> 0 \<le> fval iv \<and> fval iv / fval cost < 2 ^ 53
            \<longrightarrow> \<bar>leads m - spec_leads (fval iv) (fval cost)\<bar> \<le> 1)
       \<and> (is_finite sr \<and> 0 \<le> fval sr \<and> fval sr \<le> 100 \<and> 0 \<le> leads m \<and> leads m < 2 ^ 52
            \<longrightarrow> \<bar>agendamentos m - spec_stage (leads m) (fval sr)\<bar> \<le> 1)
       \<and> (is_finite ar \<and> 0 \<le> fval ar \<and> fval ar \<le> 100
              \<and> 0 \<le> agendamentos m \<and> agendamentos m < 2 ^ 52
            \<longrightarrow> \<bar>comparecimentos m - spec_stage (agendamentos m) (fval ar)\<bar> \<le> 1)
       \<and> (is_finite cr \<and> 0 \<le> fval cr \<and> fval cr \<le> 100
              \<and> 0 \<le> comparecimentos m \<and> comparecimentos m < 2 ^ 52
            \<longrightarrow> \<bar>vendas m - spec_stage (comparecimentos m) (fval cr)\<bar> \<le> 1)"
proof -
  note c = dashboard_calc_counts [OF assms]
  have 1: "if fgt0 cost
          then (\<exists>q. py_fdiv iv cost = Inr q \<and> is_finite q \<and> leads m = trunc0 (fval q))
          else leads m = 0"
    using c(1) by (auto simp add: bindE_Inr_iff dest: py_int_Inr split: if_splits)
  have 2: "\<exists>x. stage_value (leads m) sr = Inr x \<and> is_finite x
               \<and> agendamentos m = trunc0 (fval x)"
    using c(2) by (auto simp add: bindE_Inr_iff dest: py_int_Inr)
  have 3: "\<exists>x. stage_value (agendamentos m) ar = Inr x \<and> is_finite x
               \<and> comparecimentos m = trunc0 (fval x)"
    using c(3) by (auto simp add: bindE_Inr_iff dest: py_int_Inr)
  have 4: "\<exists>x. stage_value (comparecimentos m) cr = Inr x \<and> is_finite x
               \<and> vendas m = trunc0 (fval x)"
    using c(4) by (auto simp add: bindE_Inr_iff dest: py_int_Inr)
  have 5: "is_finite iv \<and> is_finite cost \<and> 0 \<le> fval iv \<and> fval iv / fval cost < 2 ^ 53
            \<longrightarrow> \<bar>leads m - spec_leads (fval iv) (fval cost)\<bar> \<le> 1"
    using leads_count_near [OF 1] by blast
  have 6: "is_finite sr \<and> 0 \<le> fval sr \<and> fval sr \<le> 100 \<and> 0 \<le> leads m \<and> leads m < 2 ^ 52
            \<longrightarrow> \<bar>agendamentos m - spec_stage (leads m) (fval sr)\<bar> \<le> 1"
    using 2 stage_count_near by blast
  have 7: "is_finite ar \<and> 0 \<le> fval ar \<and> fval ar \<le> 100
              \<and> 0 \<le> agendamentos m \<and> agendamentos m < 2 ^ 52
            \<longrightarrow> \<bar>comparecimentos m - spec_stage (agendamentos m) (fval ar)\<bar> \<le> 1"
    using 3 stage_count_near by blast
  have 8: "is_finite cr \<and> 0 \<le> fval cr \<and> fval cr \<le> 100
              \<and> 0 \<le> comparecimentos m \<and> comparecimentos m < 2 ^ 52
            \<longrightarrow> \<bar>vendas m - spec_stage (comparecimentos m) (fval cr)\<bar> \<le> 1"
    using 4 stage_count_near by blast
  from 1 2 3 4 5 6 7 8 show ?thesis by blast
qed

theorem funnel_counts_truncate_witness:
  "(\<exists>q. py_fdiv (Fin False 5497558138880000 (- 39)) (Fin False 7036874417766400 (- 47)) = Inr q
        \<and> is_finite q \<and> 200 = trunc0 (fval q))
   \<and> (\<exists>x. stage_value 200 (Fin False 5629499534213120 (- 48)) = Inr x \<and> is_finite x
          \<and> 40 = trunc0 (fval x))
   \<and> (\<exists>x. stage_value 40 (Fin False 5629499534213120 (- 46)) = Inr x \<and> is_finite x
          \<and> 32 = trunc0 (fval x))
   \<and> (\<exists>x. stage_value 32 (Fin False 7036874417766400 (- 48)) = Inr x \<and> is_finite x
          \<and> 8 = trunc0 (fval x))
   \<and> \<bar>200 - spec_leads 10000 50\<bar> \<le> 1
   \<and> \<bar>40 - spec_stage 200 20\<bar> \<le> 1
   \<and> \<bar>32 - spec_stage 40 80\<bar> \<le> 1
   \<and> \<bar>8 - spec_stage 32 25\<bar> \<le> 1"
proof -
  have v: "fval (Fin False 5497558138880000 (- 39)) = 10000"
    "fval (Fin False 7036874417766400 (- 47)) = 50"
    "fval (Fin False 5629499534213120 (- 48)) = 20"
    "fval (Fin False 5629499534213120 (- 46)) = 80"
    "fval (Fin False 7036874417766400 (- 48)) = 25"
    by (simp_all add: fval_def power_int_minus)
  show ?thesis
    using funnel_counts_truncate [OF calc_example]
    by (simp add: v fgt0_def is_finite_def)
qed

subsection \<open>C2: failure of the funnel computation\<close>

text \<open>
  C2, the failing input: the form texts \<^verbatim>\<open>1e308\<close> and \<^verbatim>\<open>0,1\<close> parse to finite floats;
  their quotient overflows to the infinity (Python raises nothing on a float division
  that overflows), and \<^verbatim>\<open>int\<close> of the infinity raises OverflowError, which escapes the
  view.
\<close>

theorem funnel_overflow_raises:
  "parse_num (Some ''1e308'') = Inr (Fin False 5010420900022432 971)
   \<and> parse_num (Some ''0,1'') = Inr (Fin False 7205759403792794 (- 56))
   \<and> dashboard_calc (Fin False 5010420900022432 971) (Fin False 7205759403792794 (- 56))
        fzero fzero fzero fzero = Inl OverflowError
   \<and> dashboard req_overflow [] = (Inl OverflowError, [])"
proof -
  have "dashboard req_overflow [] = (Inl OverflowError, [])"
    by (simp add: dashboard_def req_overflow_def parse_1e308 parse_numbers parse_examples
        calc_overflow bindE_def)
  then show ?thesis
    by (simp add: parse_1e308 parse_numbers calc_overflow)
qed

subsection \<open>C3: the worked example\<close>

text \<open>
  C3: with investment 10000, cost per lead 50, rates 20, 80 and 25 per cent and average
  ticket 500 the funnel returns 200 leads, 40 appointments, 32 attendances, 8 sales,
  revenue 4000.0, profit -6000.0, and one scheduler and one closer.
\<close>

theorem funnel_example:
  "map_sum id (\<lambda>m. (leads m, agendamentos m, comparecimentos m, vendas m,
                     receita m, lucro m, sdrs m, closers m))
     (dashboard_calc (dbl 10000 1) (dbl 50 1) (dbl 20 1) (dbl 80 1) (dbl 25 1) (dbl 500 1))
   = Inr (200, 40, 32, 8, dbl 4000 1, dbl (- 6000) 1, 1, 1)"
  unfolding dbl_values by (simp add: calc_example)

subsection \<open>C4: staffing\<close>

text \<open>
  C4, as stated, fails: an investment of 50665495807918264 at a cost per lead of 1, with
  rates of 100 per cent and a ticket of 2, gives 50665495807918264 attendances. The
  quotient by 180 is a little more than 281474976710657, and the true division of the
  two ints rounds it to the float \<^verbatim>\<open>281474976710657.0\<close>: the code returns 281474976710657
  schedulers, one less than the ceiling of the quotient.
\<close>

theorem staffing_ceiling_counterexample:
  "map_sum id comparecimentos
     (dashboard_calc (dbl 50665495807918264 1) (dbl 1 1) (dbl 100 1) (dbl 100 1) (dbl 100 1)
        (dbl 2 1))
     = Inr 50665495807918264
   \<and> map_sum id sdrs
     (dashboard_calc (dbl 50665495807918264 1) (dbl 1 1) (dbl 100 1) (dbl 100 1) (dbl 100 1)
        (dbl 2 1))
     = Inr 281474976710657
   \<and> max 1 \<lceil>(of_int 50665495807918264 :: rat) / 180\<rceil> = 281474976710658"
proof -
  have "\<lceil>(of_int 50665495807918264 :: rat) / 180\<rceil> = 281474976710658"
    by (simp add: ceiling_eq_iff)
  then show ?thesis
    unfolding dbl_values by (simp add: calc_staffing)
qed

text \<open>
  C4, amended: whenever the funnel computation returns, the schedulers needed are the
  larger of 1 and the ceiling of \<^verbatim>\<open>comparecimentos / 180\<close>, the closers needed the larger
  of 1 and the ceiling of \<^verbatim>\<open>vendas / 120\<close>, where each quotient is the float that Python's
  true division of the two ints gives, and both are at least 1. For counts up to \<open>2\<^sup>5\<^sup>3\<close>
  in absolute value the ceiling of that float is the ceiling of the exact quotient.
\<close>

theorem staffing_formula:
  assumes "dashboard_calc iv cost sr ar cr tk = Inr m"
  shows "(\<exists>x. py_int_truediv (comparecimentos m) 180 = Inr x \<and> is_finite x
              \<and> sdrs m = max 1 \<lceil>fval x\<rceil>)
       \<and> (\<exists>y. py_int_truediv (vendas m) 120 = Inr y \<and> is_finite y
              \<and> closers m = max 1 \<lceil>fval y\<rceil>)
       \<and> 1 \<le> sdrs m \<and> 1 \<le> closers m
       \<and> (\<bar>comparecimentos m\<bar> \<le> 2 ^ 53 \<longrightarrow>
            sdrs m = max 1 \<lceil>(of_int (comparecimentos m) :: rat) / 180\<rceil>)
       \<and> (\<bar>vendas m\<bar> \<le> 2 ^ 53 \<longrightarrow>
            closers m = max 1 \<lceil>(of_int (vendas m) :: rat) / 120\<rceil>)"
proof -
  note c = dashboard_calc_counts [OF assms]
  have 1: "\<exists>x. py_int_truediv (comparecimentos m) 180 = Inr x \<and> is_finite x
              \<and> sdrs m = max 1 \<lceil>fval x\<rceil>"
    using c(5) by (auto simp add: bindE_Inr_iff dest: py_ceil_Inr)
  have 2: "\<exists>y. py_int_truediv (vendas m) 120 = Inr y \<and> is_finite y
              \<and> closers m = max 1 \<lceil>fval y\<rceil>"
    using c(6) by (auto simp add: bindE_Inr_iff dest: py_ceil_Inr)
  from 1 have 3: "1 \<le> sdrs m" by auto
  from 2 have 4: "1 \<le> closers m" by auto
  have 5: "\<bar>comparecimentos m\<bar> \<le> 2 ^ 53 \<longrightarrow>
            sdrs m = max 1 \<lceil>(of_int (comparecimentos m) :: rat) / 180\<rceil>"
  proof
    assume b: "\<bar>comparecimentos m\<bar> \<le> 2 ^ 53"
    from 1 obtain x where x: "py_int_truediv (comparecimentos m) 180 = Inr x"
      and s: "sdrs m = max 1 \<lceil>fval x\<rceil>" by blast
    have "\<lceil>fval x\<rceil> = \<lceil>of_int (comparecimentos m) / of_int 180 :: rat\<rceil>"
      using b by (intro py_int_truediv_ceiling [where j = 46] x) simp_all
    then show "sdrs m = max 1 \<lceil>(of_int (comparecimentos m) :: rat) / 180\<rceil>"
      using s by simp
  qed
  have 6: "\<bar>vendas m\<bar> \<le> 2 ^ 53 \<longrightarrow>
            closers m = max 1 \<lceil>(of_int (vendas m) :: rat) / 120\<rceil>"
  proof
    assume b: "\<bar>vendas m\<bar> \<le> 2 ^ 53"
    from 2 obtain y where y: "py_int_truediv (vendas m) 120 = Inr y"
      and s: "closers m = max 1 \<lceil>fval y\<rceil>" by blast
    have "\<lceil>fval y\<rceil> = \<lceil>of_int (vendas m) / of_int 120 :: rat\<rceil>"
      using b by (intro py_int_truediv_ceiling [where j = 47] y) simp_all
    then show "closers m = max 1 \<lceil>(of_int (vendas m) :: rat) / 120\<rceil>"
      using s by simp
  qed
  from 1 2 3 4 5 6 show ?thesis by blast
qed

theorem staffing_formula_witness:
  "(\<exists>x. py_int_truediv 32 180 = Inr x \<and> is_finite x \<and> (1::int) = max 1 \<lceil>fval x\<rceil>)
   \<and> (\<exists>y. py_int_truediv 8 120 = Inr y \<and> is_finite y \<and> (1::int) = max 1 \<lceil>fval y\<rceil>)
   \<and> (1::int) = max 1 \<lceil>(32::rat) / 180\<rceil> \<and> (1::int) = max 1 \<lceil>(8::rat) / 120\<rceil>"
  using staffing_formula [OF calc_example] by simp

subsection \<open>C5: \<^verbatim>\<open>parse_num\<close>\<close>

text \<open>
  C5: \<^verbatim>\<open>parse_num\<close> returns \<^verbatim>\<open>0.0\<close> for \<^verbatim>\<open>None\<close> and for a blank text; whitespace around
  the text does not change the result; for any other text the result is what \<^verbatim>\<open>float\<close>
  makes of the stripped text with every \<^verbatim>\<open>.\<close> removed and every \<^verbatim>\<open>,\<close> turned into
  \<^verbatim>\<open>.\<close>, and \<^verbatim>\<open>0.0\<close> when that conversion fails; it never raises; and the four examples
  hold.
\<close>

theorem parse_num_total:
  "parse_num None = Inr fzero
   \<and> (py_strip s = [] \<longrightarrow> parse_num (Some s) = Inr fzero)
   \<and> (list_all py_isspace l \<and> list_all py_isspace r
        \<longrightarrow> parse_num (Some (l @ s @ r)) = parse_num (Some s))
   \<and> (py_strip s \<noteq> [] \<longrightarrow>
        parse_num (Some s) =
          Inr (case py_float_str (br_to_ascii (py_strip s)) of Inr x \<Rightarrow> x | Inl e \<Rightarrow> fzero))
   \<and> (\<exists>x. parse_num (Some s) = Inr x)
   \<and> parse_num (Some ''1.234,56'') = Inr (dbl 123456 100)
   \<and> parse_num (Some []) = Inr fzero
   \<and> parse_num (Some ''abc'') = Inr fzero"
proof -
  have 1: "list_all py_isspace l \<and> list_all py_isspace r
        \<longrightarrow> parse_num (Some (l @ s @ r)) = parse_num (Some s)"
    by (simp add: parse_num_Some py_strip_pad)
  have 2: "py_strip s = [] \<longrightarrow> parse_num (Some s) = Inr fzero"
    by (simp add: parse_num_Some)
  have 3: "py_strip s \<noteq> [] \<longrightarrow>
        parse_num (Some s) =
          Inr (case py_float_str (br_to_ascii (py_strip s)) of Inr x \<Rightarrow> x | Inl e \<Rightarrow> fzero)"
    by (simp add: parse_num_Some)
  have 4: "\<exists>x. parse_num (Some s) = Inr x"
    by (simp only: parse_num_Some) blast
  from 1 2 3 4 parse_examples(1,2,3) parse_numbers(1) show ?thesis
    by (intro conjI)
qed

theorem parse_num_total_witness:
  "list_all py_isspace ''  '' \<and> list_all py_isspace [CHR 0x09]
   \<and> parse_num (Some (''  '' @ ''12,5'' @ [CHR 0x09])) = parse_num (Some ''12,5'')
   \<and> py_strip ''12,5'' \<noteq> []
   \<and> parse_num (Some ''12,5'') =
       Inr (case py_float_str (br_to_ascii (py_strip ''12,5'')) of
              Inr x \<Rightarrow> x | Inl e \<Rightarrow> fzero)
   \<and> parse_num (Some ''12,5'') = Inr (dbl 125 10)
   \<and> py_strip ''  '' = []
   \<and> parse_num (Some ''  '') = Inr fzero"
proof -
  have a: "list_all py_isspace ''  '' \<and> list_all py_isspace [CHR 0x09]"
    by (simp add: py_isspace_def)
  have b: "py_strip ''  '' = []"
    by (simp add: py_strip_def py_isspace_def)
  have c: "parse_num (Some ''12,5'') = Inr (dbl 125 10)"
    by (simp add: str_eval float_eval)
  have d: "py_strip ''12,5'' \<noteq> []"
    by (simp add: py_strip_def py_isspace_def)
  from parse_num_total [of "''12,5''" "''  ''" "[CHR 0x09]"]
       parse_num_total [of "''  ''" "[]" "[]"] a b c d
  show ?thesis by simp
qed

subsection \<open>C6: \<^verbatim>\<open>br_money\<close>\<close>

text \<open>
  C6, as stated, fails on a float that is not finite: the infinity is rendered as
  \<^verbatim>\<open>R$ inf\<close>, without decimal digits, and no exception makes it \<^verbatim>\<open>R$ 0,00\<close>.
\<close>

theorem br_money_infinity_counterexample:
  "br_money (VFloat (Infty False)) = ''R$ inf''"
  by (simp add: br_money_def py_format_comma_2f_def fmt_comma_2f_def py_replace_def)

text \<open>
  C6, amended: every finite float is rendered as the currency marker, the sign, the
  integer digits of the correctly rounded hundredths grouped by \<^verbatim>\<open>.\<close>, a \<^verbatim>\<open>,\<close> and two
  decimal digits; the infinities and NaN are rendered as \<^verbatim>\<open>R$ inf\<close>, \<^verbatim>\<open>R$ -inf\<close> and
  \<^verbatim>\<open>R$ nan\<close>; an int is rendered as its float; whenever the formatting raises, the result
  is \<^verbatim>\<open>R$ 0,00\<close>; and 1234.5 gives \<^verbatim>\<open>R$ 1.234,50\<close>.
\<close>

theorem br_money_format:
  "br_money (VFloat (Fin s m e)) = spec_money s (cents m e)
   \<and> is_digit (digit_char (cents m e mod 100 div 10))
   \<and> is_digit (digit_char (cents m e mod 10))
   \<and> list_all is_digit (digits_of (cents m e div 100))
   \<and> br_money (VFloat (Infty b)) = (if b then ''R$ -inf'' else ''R$ inf'')
   \<and> br_money (VFloat NaN) = ''R$ nan''
   \<and> br_money (VInt i) =
       (case py_float_of_int i of Inr x \<Rightarrow> br_money (VFloat x) | Inl err \<Rightarrow> ''R$ 0,00'')
   \<and> (py_format_comma_2f v = Inl err \<longrightarrow> br_money v = ''R$ 0,00'')
   \<and> br_money (VFloat (dbl 12345 10)) = ''R$ 1.234,50''"
proof -
  have 1: "br_money (VFloat (Infty b)) = (if b then ''R$ -inf'' else ''R$ inf'')"
    by (simp add: br_money_def py_format_comma_2f_def fmt_comma_2f_def py_replace_def)
  have 2: "br_money (VFloat NaN) = ''R$ nan''"
    by (simp add: br_money_def py_format_comma_2f_def fmt_comma_2f_def py_replace_def)
  have 3: "br_money (VInt i) =
       (case py_float_of_int i of Inr x \<Rightarrow> br_money (VFloat x) | Inl err \<Rightarrow> ''R$ 0,00'')"
    by (cases "py_float_of_int i") (simp_all add: br_money_def py_format_comma_2f_def bindE_def)
  have 4: "py_format_comma_2f v = Inl err \<longrightarrow> br_money v = ''R$ 0,00''"
    by (simp add: br_money_def)
  have 5: "is_digit (digit_char (cents m e mod 100 div 10))"
    "is_digit (digit_char (cents m e mod 10))"
    by (simp_all add: digit_char_is_digit)
  from br_money_finite [of s m e] 5 digits_of_digits [of "cents m e div 100"] 1 2 3 4
    br_money_example
  show ?thesis by (intro conjI)
qed

theorem br_money_format_witness:
  "br_money VNone = ''R$ 0,00'' \<and> br_money (VStr ''abc'') = ''R$ 0,00''"
proof -
  have a: "py_format_comma_2f VNone = Inl TypeError"
    and b: "py_format_comma_2f (VStr ''abc'') = Inl ValueError"
    by (simp_all add: py_format_comma_2f_def)
  from br_money_format [of False 0 0 False 0 VNone TypeError]
       br_money_format [of False 0 0 False 0 "VStr ''abc''" ValueError] a b
  show ?thesis by simp
qed

subsection \<open>C7: a capture with a blank field\<close>

text \<open>
  C7: a capture submission in which the name, the phone or the e-mail is blank after
  trimming stores nothing (the table is unchanged) and shows the capture form again,
  flashing exactly the messages of the blank fields, of which there is at least one;
  each message is flashed if and only if its own field is blank.
\<close>

theorem capture_blank_rejected:
  assumes "http_method req = POST"
    and "form_field req ''name'' = [] \<or> form_field req ''phone'' = [] \<or>
         form_field req ''email'' = []"
  shows "capture ev req rows =
           ((Template ''lead_capture.html'' None None,
             map (\<lambda>e. (e, ''danger'')) (blank_errors req)), rows)
         \<and> blank_errors req \<noteq> []
         \<and> (msg_name \<in> set (blank_errors req)) = (form_field req ''name'' = [])
         \<and> (msg_phone \<in> set (blank_errors req)) = (form_field req ''phone'' = [])
         \<and> (msg_email \<in> set (blank_errors req)) = (form_field req ''email'' = [])"
proof -
  have "capture ev req rows =
           ((Template ''lead_capture.html'' None None,
             map (\<lambda>e. (e, ''danger'')) (blank_errors req)), rows)"
    using assms by (auto simp add: capture_def blank_errors_def Let_def)
  moreover have "blank_errors req \<noteq> []"
    using assms(2) by (auto simp add: blank_errors_def)
  moreover have "(msg_name \<in> set (blank_errors req)) = (form_field req ''name'' = [])"
    by (simp add: blank_errors_def msg_name_def msg_phone_def msg_email_def)
  moreover have "(msg_phone \<in> set (blank_errors req)) = (form_field req ''phone'' = [])"
    by (simp add: blank_errors_def msg_name_def msg_phone_def msg_email_def)
  moreover have "(msg_email \<in> set (blank_errors req)) = (form_field req ''email'' = [])"
    by (simp add: blank_errors_def msg_name_def msg_phone_def msg_email_def)
  ultimately show ?thesis by simp
qed

theorem capture_blank_rejected_witness:
  "capture \<lparr> commit_raises = False, utcnow = 0 \<rparr> req_blank [] =
     ((Template ''lead_capture.html'' None None,
       [(msg_name, ''danger''), (msg_email, ''danger'')]), [])"
  using capture_blank_rejected [of req_blank "\<lparr> commit_raises = False, utcnow = 0 \<rparr>" "[]"]
  by (simp add: form_field_req_blank blank_errors_def) (simp add: req_blank_def)

subsection \<open>C8: a successful capture\<close>

text \<open>
  C8, as stated, fails when the commit raises: with the three fields filled in, nothing
  is stored and the capture form is shown again with the failure message.
\<close>

theorem capture_commit_failure_counterexample:
  "capture \<lparr> commit_raises = True, utcnow = 0 \<rparr> req_ok [] =
     ((Template ''lead_capture.html'' None None, [(msg_failure, ''danger'')]), [])"
  by (simp add: capture_def Let_def form_field_req_ok db_add_commit_def)
     (simp add: req_ok_def)

text \<open>
  C8, amended: a capture submission with non-blank name, phone and e-mail, whose commit
  does not raise, appends exactly one Lead (the trimmed fields, a fresh identifier) to the
  table and redirects to the dashboard with that identifier as the query parameter
  \<^verbatim>\<open>lead_id\<close>; if the commit raises, the table is unchanged and the form is shown again.
\<close>

theorem capture_success:
  assumes "http_method req = POST"
    and "form_field req ''name'' \<noteq> []" and "form_field req ''phone'' \<noteq> []"
    and "form_field req ''email'' \<noteq> []"
  shows "(\<not> commit_raises ev \<longrightarrow>
           (\<exists>lead. capture ev req rows =
                      ((Redirect ''dashboard'' [(''lead_id'', lead_id lead)],
                        [(msg_success, ''success'')]), rows @ [lead])
                  \<and> lead_id lead \<notin> lead_id ` set rows
                  \<and> name lead = form_field req ''name''
                  \<and> phone lead = form_field req ''phone''
                  \<and> email lead = form_field req ''email''
                  \<and> company lead = form_field req ''company''
                  \<and> created_at lead = utcnow ev))
       \<and> (commit_raises ev \<longrightarrow>
           capture ev req rows =
             ((Template ''lead_capture.html'' None None, [(msg_failure, ''danger'')]), rows))"
  using assms next_id_fresh [of rows]
  by (simp add: capture_def Let_def db_add_commit_def)

theorem capture_success_witness:
  "capture \<lparr> commit_raises = False, utcnow = 7 \<rparr> req_ok [] =
     ((Redirect ''dashboard'' [(''lead_id'', 1)], [(msg_success, ''success'')]),
      [\<lparr> lead_id = 1, name = ''Ana'', phone = ''555'', email = ''a@b.c'', company = [],
         created_at = 7 \<rparr>])
   \<and> capture \<lparr> commit_raises = True, utcnow = 7 \<rparr> req_ok [] =
     ((Template ''lead_capture.html'' None None, [(msg_failure, ''danger'')]), [])"
proof -
  have p: "http_method req_ok = POST" by (simp add: req_ok_def)
  from capture_success [OF p, of "\<lparr> commit_raises = False, utcnow = 7 \<rparr>" "[]"]
       capture_success [OF p, of "\<lparr> commit_raises = True, utcnow = 7 \<rparr>" "[]"]
  show ?thesis
    by (auto simp add: form_field_req_ok next_id_def db_add_commit_def capture_def Let_def p)
qed

subsection \<open>C9: the dashboard and the store\<close>

text \<open>
  C9: a dashboard request leaves the persisted Lead records as they were, whatever the
  request and whether the lookup and the funnel computation return or raise: the view
  only looks a lead up.
\<close>

theorem dashboard_store_unchanged:
  "snd (dashboard req rows) = rows"
  by (simp add: dashboard_def split: sum.split option.split)

subsection \<open>C10: what \<^verbatim>\<open>parse_num\<close> accepts\<close>

text \<open>
  C10: \<^verbatim>\<open>parse_num\<close> gives a result other than \<^verbatim>\<open>0.0\<close> on texts that are not pt-BR
  numerals: \<^verbatim>\<open>1e3\<close> is 1000.0, \<^verbatim>\<open>1.5\<close> is 15.0 (the point is removed), \<^verbatim>\<open>inf\<close> and
  \<^verbatim>\<open>nan\<close> are the infinity and the NaN; these two reach the funnel computation, where
  \<^verbatim>\<open>int\<close> raises OverflowError and ValueError.
\<close>

theorem parse_num_accepts_float_syntax:
  "parse_num (Some ''1e3'') = Inr (dbl 1000 1)
   \<and> parse_num (Some ''1.5'') = Inr (dbl 15 1)
   \<and> parse_num (Some ''inf'') = Inr (Infty False)
   \<and> parse_num (Some ''nan'') = Inr NaN
   \<and> fval (dbl 1000 1) = 1000 \<and> fval (dbl 15 1) = 15
   \<and> \<not> is_finite (Infty False) \<and> \<not> is_finite NaN
   \<and> Infty False \<noteq> fzero \<and> NaN \<noteq> fzero
   \<and> dashboard req_inf [] = (Inl OverflowError, [])
   \<and> dashboard req_nan [] = (Inl ValueError, [])"
proof -
  have 1: "dashboard req_inf [] = (Inl OverflowError, [])"
    by (simp add: dashboard_def req_inf_def parse_numbers parse_examples calc_inf bindE_def)
  have 2: "dashboard req_nan [] = (Inl ValueError, [])"
    by (simp add: dashboard_def req_nan_def parse_numbers parse_examples calc_nan bindE_def)
  have 3: "fval (dbl 1000 1) = 1000" "fval (dbl 15 1) = 15"
    by (simp_all add: float_eval fval_def power_int_minus)
  show ?thesis using 1 2 3
    by (simp add: parse_numbers parse_examples is_finite_def fzero_def)
qed

end
